theory Spec2Isabelle
  imports Complex_Main "HOL-Library.Word" "HOL-Library.Extended_Nat"
begin

unbundle bit_operations_syntax

section \<open>The codec: \<open>BitStreamEncoder\<close> (bitstream.js)\<close>

text \<open>
  JavaScript strings are modelled as \<^typ>\<open>string\<close>: every element is one UTF-16 code unit
  of the Latin-1 range, so indexing (\<open>safeChars[i]\<close>), \<open>new Set(safeChars)\<close> and
  \<open>for (const char of str)\<close> all see the same sequence of symbols. A \<open>Uint8Array\<close> is a list
  of 8-bit words, a \<open>BigInt\<close> that is never negative is a \<^typ>\<open>nat\<close>.
\<close>

type_synonym byte = "8 word"

text \<open>One constructor for each \<open>throw\<close> of the two source files, and for the runtime's own
  \<open>RangeError\<close> (BigInt division by zero) and \<open>TypeError\<close> (property read on \<open>undefined\<close>).\<close>

datatype error =
    InvalidSafeChars
  | DuplicateChars
  | EmptyInput
  | InvalidCharacters string
  | InvalidLengthPrefix
  | IncompleteData nat nat
  | RangeError
  | TypeError
  | BlobCreationFailed
  | UnableToCompress

record BitStreamEncoder =
  SAFE_CHARS :: string
  RADIX :: nat
  charToIndex :: "char \<rightharpoonup> nat"
  indexToChar :: "nat \<rightharpoonup> char"

text \<open>The body of the constructor's \<open>for\<close> loop, and the loop over \<open>i = 0 .. length - 1\<close>.\<close>

definition set_tables ::
  "string \<Rightarrow> nat \<Rightarrow> (char \<rightharpoonup> nat) \<times> (nat \<rightharpoonup> char) \<Rightarrow> (char \<rightharpoonup> nat) \<times> (nat \<rightharpoonup> char)" where
  "set_tables safeChars i tabs = ((fst tabs)(safeChars ! i \<mapsto> i), (snd tabs)(i \<mapsto> safeChars ! i))"

definition new_BitStreamEncoder :: "string \<Rightarrow> error + BitStreamEncoder" where
  "new_BitStreamEncoder safeChars =
     (if length safeChars = 0 then Inl InvalidSafeChars
      else if card (set safeChars) \<noteq> length safeChars then Inl DuplicateChars
      else
        let tabs = fold (set_tables safeChars) [0 ..< length safeChars] (Map.empty, Map.empty)
        in Inr \<lparr> SAFE_CHARS = safeChars, RADIX = length safeChars,
                 charToIndex = fst tabs, indexToChar = snd tabs \<rparr>)"

text \<open>\<open>DataView.setUint32(0, n, false)\<close> on a fresh 4-byte buffer: \<open>n\<close> modulo \<open>2^32\<close>,
  most significant byte first; and \<open>getUint32(0, false)\<close> on a 4-byte buffer.\<close>

definition setUint32 :: "nat \<Rightarrow> byte list" where
  "setUint32 n =
     (let m = n mod 2 ^ 32
      in [of_nat (m div 2 ^ 24), of_nat (m div 2 ^ 16), of_nat (m div 2 ^ 8), of_nat m])"

definition getUint32 :: "byte list \<Rightarrow> nat" where
  "getUint32 b = unat (b ! 0) * 2 ^ 24 + unat (b ! 1) * 2 ^ 16 + unat (b ! 2) * 2 ^ 8 + unat (b ! 3)"

text \<open>\<open>for (const byte of allBytes) value = (value << 8n) | BigInt(byte)\<close>\<close>

definition bytes_to_value :: "byte list \<Rightarrow> nat" where
  "bytes_to_value allBytes = fold (\<lambda>byte value. push_bit 8 value OR unat byte) allBytes 0"

text \<open>\<open>SAFE_CHARS[i]\<close> is \<open>undefined\<close> out of range, and \<open>join\<close> prints \<open>undefined\<close> as the
  empty string: a chunk is the piece of text that \<open>join\<close> emits for it.\<close>

definition char_at :: "string \<Rightarrow> nat \<Rightarrow> string" where
  "char_at s i = (if i < length s then [s ! i] else [])"

text \<open>The \<open>while (value > 0n)\<close> loop of \<open>encodeBits\<close>. It does not return when the radix is 1
  (then \<open>value / RADIX\<close> is \<open>value\<close>), which is the result \<open>None\<close>; a radix of 0 would make
  \<open>value % RADIX\<close> throw.\<close>

partial_function (option) encode_loop ::
  "BitStreamEncoder \<Rightarrow> nat \<Rightarrow> string list \<Rightarrow> (error + string list) option" where
  "encode_loop enc v chunks =
     (if v > 0 then
        (if RADIX enc = 0 then Some (Inl RangeError)
         else encode_loop enc (v div RADIX enc) (char_at (SAFE_CHARS enc) (v mod RADIX enc) # chunks))
      else Some (Inr chunks))"

declare encode_loop.simps [code]

definition encodeBits :: "BitStreamEncoder \<Rightarrow> byte list \<Rightarrow> (error + string) option" where
  "encodeBits enc bytes =
     (let lengthPrefix = setUint32 (length bytes);
          allBytes = lengthPrefix @ bytes;
          v = bytes_to_value allBytes
      in if v = 0 then Some (Inr (concat [char_at (SAFE_CHARS enc) 0]))
         else map_option (map_sum id concat) (encode_loop enc v []))"

text \<open>\<open>for (const char of str) value = value * RADIX + charToIndex.get(char)\<close>; adding
  \<open>undefined\<close> to a BigInt is a \<open>TypeError\<close>.\<close>

fun string_to_value :: "BitStreamEncoder \<Rightarrow> string \<Rightarrow> nat \<Rightarrow> error + nat" where
  "string_to_value enc [] v = Inr v"
| "string_to_value enc (c # cs) v =
     (case charToIndex enc c of
        None \<Rightarrow> Inl TypeError
      | Some i \<Rightarrow> string_to_value enc cs (v * RADIX enc + i))"

text \<open>\<open>while (value > 0n) { bytes.unshift(Number(value & 0xFFn)); value = value >> 8n }\<close>\<close>

function value_to_bytes :: "nat \<Rightarrow> byte list \<Rightarrow> byte list" where
  "value_to_bytes v bytes =
     (if v > 0 then value_to_bytes (drop_bit 8 v) (of_nat (v AND 255) # bytes) else bytes)"
  by pat_completeness auto
termination
  by (relation "measure fst") (auto simp: drop_bit_eq_div)

text \<open>\<open>while (bytes.length < 4) bytes.unshift(0)\<close>\<close>

function pad4 :: "byte list \<Rightarrow> byte list" where
  "pad4 bytes = (if length bytes < 4 then pad4 (0 # bytes) else bytes)"
  by pat_completeness auto
termination
  by (relation "measure (\<lambda>bytes. 4 - length bytes)") auto

declare value_to_bytes.simps [simp del] pad4.simps [simp del]

definition decodeBits :: "BitStreamEncoder \<Rightarrow> string \<Rightarrow> error + byte list" where
  "decodeBits enc str =
     (if length str = 0 then Inl EmptyInput
      else
        let invalidChars = filter (\<lambda>c. charToIndex enc c = None) str
        in if length invalidChars > 0 then Inl (InvalidCharacters invalidChars)
        else
          (case string_to_value enc str 0 of
             Inl e \<Rightarrow> Inl e
           | Inr v \<Rightarrow>
               let bytes = pad4 (if v = 0 then [0] else value_to_bytes v []);
                   slice = take 4 bytes;
                   lengthArray = slice @ replicate (4 - length slice) 0;
                   expectedLength = getUint32 lengthArray
               in if expectedLength \<le> 0 then Inl InvalidLengthPrefix
                  else
                    let dataBytes = drop 4 bytes
                    in if length dataBytes < expectedLength
                       then Inl (IncompleteData expectedLength (length dataBytes))
                       else Inr (take expectedLength dataBytes)))"



section \<open>The size-constrained search: \<open>ImageProcessor\<close> (imageProcessor.js)\<close>

text \<open>
  JavaScript numbers that hold a quality, a scale or a ratio are modelled as exact rationals:
  the rounding of IEEE doubles is left out. A length that may be \<open>Infinity\<close> is an
  \<^typ>\<open>enat\<close>. \<open>CONFIG\<close> is defined outside the two source files; it is a parameter.
\<close>

record CONFIG =
  CONFIG_SAFE_CHARS :: string
  MAX_URL_LENGTH :: nat
  SUPPORTED_INPUT_FORMATS :: "string list"

text \<open>An \<open>ImageBitmap\<close>: its dimensions and, for the pixels, what a canvas of a given width and
  height on which the image was drawn hands to the callback of
  \<open>toBlob(callback, format, quality)\<close>: the bytes of a blob, or \<open>null\<close>. A width or height of
  \<open>None\<close> is \<open>undefined\<close>.\<close>

record ImageBitmap =
  width :: nat
  height :: nat
  toBlob :: "int option \<Rightarrow> int option \<Rightarrow> string \<Rightarrow> rat \<Rightarrow> byte list option"

record compression_params =
  format :: string
  quality :: rat
  scale :: rat

record compressed =
  encoded :: string
  data_format :: string
  data_size :: nat

record level_result =
  success :: bool
  encodedLength :: enat
  data :: "compressed option"
  params :: compression_params

text \<open>\<open>this.encoder = new BitStreamEncoder(CONFIG.SAFE_CHARS)\<close> in the constructor.\<close>

definition new_ImageProcessor :: "CONFIG \<Rightarrow> error + BitStreamEncoder" where
  "new_ImageProcessor cfg = new_BitStreamEncoder (CONFIG_SAFE_CHARS cfg)"

text \<open>\<open>Math.round\<close> rounds half-way cases up.\<close>

definition Math_round :: "rat \<Rightarrow> int" where
  "Math_round x = \<lfloor>x + 1 / 2\<rfloor>"

definition tryCompression ::
  "ImageBitmap \<Rightarrow> string \<Rightarrow> rat \<Rightarrow> int option \<Rightarrow> int option \<Rightarrow> error + byte list \<times> nat" where
  "tryCompression img fmt q w h =
     (case toBlob img w h fmt q of
        None \<Rightarrow> Inl BlobCreationFailed
      | Some blob \<Rightarrow> Inr (blob, length blob))"

text \<open>The result of the \<open>catch\<close> branch of \<open>tryCompressionLevel\<close>.\<close>

definition attempt_failed :: "compression_params \<Rightarrow> level_result" where
  "attempt_failed ps = \<lparr> success = False, encodedLength = \<infinity>, data = None, params = ps \<rparr>"

definition tryCompressionLevel ::
  "CONFIG \<Rightarrow> BitStreamEncoder \<Rightarrow> ImageBitmap \<Rightarrow> compression_params \<Rightarrow> level_result option" where
  "tryCompressionLevel cfg encoder img ps =
     (case tryCompression img (format ps) (quality ps)
             (Some (Math_round (of_nat (width img) * scale ps)))
             (Some (Math_round (of_nat (height img) * scale ps))) of
        Inl e \<Rightarrow> Some (attempt_failed ps)
      | Inr (buffer, sz) \<Rightarrow>
          (case encodeBits encoder buffer of
             None \<Rightarrow> None
           | Some (Inl e) \<Rightarrow> Some (attempt_failed ps)
           | Some (Inr enc) \<Rightarrow>
               let ok = (length enc \<le> MAX_URL_LENGTH cfg)
               in Some \<lparr> success = ok, encodedLength = enat (length enc),
                         data = (if ok then Some \<lparr> encoded = enc, data_format = format ps,
                                                   data_size = sz \<rparr> else None),
                         params = ps \<rparr>))"

subsection \<open>Phase 2: \<open>binarySearchCompression\<close>\<close>

text \<open>\<open>initialLength / targetSize\<close> and the comparison \<open>ratio > k\<close>, with \<open>Infinity\<close> and
  \<open>NaN\<close>; the divisor is never negative.\<close>

datatype number = Finite rat | Infinity | NaN

definition js_div :: "enat \<Rightarrow> rat \<Rightarrow> number" where
  "js_div a b =
     (case a of
        \<infinity> \<Rightarrow> Infinity
      | enat n \<Rightarrow> if b = 0 then (if n = 0 then NaN else Infinity) else Finite (of_nat n / b))"

definition js_gt :: "number \<Rightarrow> rat \<Rightarrow> bool" where
  "js_gt x k = (case x of Finite r \<Rightarrow> k < r | Infinity \<Rightarrow> True | NaN \<Rightarrow> False)"

text \<open>One entry of the log that the model keeps of the rounds of the search (the source keeps
  none): whether the trial of the round fitted, and the four bounds after the round.\<close>

record round =
  fits :: bool
  lo_quality :: rat
  hi_quality :: rat
  lo_scale :: rat
  hi_scale :: rat

record search_state =
  minQuality :: rat
  maxQuality :: rat
  minScale :: rat
  maxScale :: rat
  bestResult :: "level_result option"
  iterations :: nat
  history :: "round list"

definition bounds_of :: "bool \<Rightarrow> search_state \<Rightarrow> round" where
  "bounds_of ok st = \<lparr> fits = ok, lo_quality = minQuality st, hi_quality = maxQuality st,
                        lo_scale = minScale st, hi_scale = maxScale st \<rparr>"

text \<open>The variables of \<open>binarySearchCompression\<close> when its loop starts.\<close>

definition search_init :: "CONFIG \<Rightarrow> enat \<Rightarrow> search_state" where
  "search_init cfg initialLength =
     (let targetSize = of_nat (MAX_URL_LENGTH cfg) * 0.95;
          ratio = js_div initialLength targetSize;
          maxQ = (if js_gt ratio 4 then 0.7 else if js_gt ratio 2 then 0.8 else 0.95);
          maxS = (if js_gt ratio 4 then 0.7 else if js_gt ratio 2 then 0.8 else 1.0)
      in \<lparr> minQuality = 0.1, maxQuality = maxQ, minScale = 0.1, maxScale = maxS,
            bestResult = None, iterations = 0, history = [] \<rparr>)"

definition maxIterations :: nat where
  "maxIterations = 8"

text \<open>The assignments of one round, once the trial has returned \<open>result\<close>.\<close>

definition search_update :: "search_state \<Rightarrow> rat \<Rightarrow> rat \<Rightarrow> level_result \<Rightarrow> search_state" where
  "search_update st q s result =
     (let st' = (if success result
                 then st \<lparr> bestResult := Some result, minQuality := q, minScale := s \<rparr>
                 else st \<lparr> maxQuality := q, maxScale := s \<rparr>)
      in st' \<lparr> history := history st' @ [bounds_of (success result) st'] \<rparr>)"

function binarySearch_loop ::
  "CONFIG \<Rightarrow> BitStreamEncoder \<Rightarrow> ImageBitmap \<Rightarrow> string \<Rightarrow> search_state \<Rightarrow> search_state option" where
  "binarySearch_loop cfg encoder img fmt st =
     (if iterations st < maxIterations then
        (let q = (minQuality st + maxQuality st) / 2;
             s = (minScale st + maxScale st) / 2
         in case tryCompressionLevel cfg encoder img \<lparr> format = fmt, quality = q, scale = s \<rparr> of
              None \<Rightarrow> None
            | Some result \<Rightarrow>
                let st' = search_update st q s result
                in if \<bar>maxQuality st' - minQuality st'\<bar> < 0.05 \<and> \<bar>maxScale st' - minScale st'\<bar> < 0.05
                   then Some st'
                   else binarySearch_loop cfg encoder img fmt (st' \<lparr> iterations := iterations st' + 1 \<rparr>))
      else Some st)"
  by pat_completeness auto
termination
  by (relation "measure (\<lambda>(cfg, encoder, img, fmt, st). maxIterations - iterations st)")
     (auto simp: search_update_def Let_def)

declare binarySearch_loop.simps [simp del]

text \<open>\<open>return bestResult || { success: false }\<close>: \<open>None\<close> is the object \<open>{ success: false }\<close>.\<close>

definition binarySearchCompression ::
  "CONFIG \<Rightarrow> BitStreamEncoder \<Rightarrow> ImageBitmap \<Rightarrow> string \<Rightarrow> enat \<Rightarrow> level_result option option" where
  "binarySearchCompression cfg encoder img fmt initialLength =
     map_option bestResult (binarySearch_loop cfg encoder img fmt (search_init cfg initialLength))"

subsection \<open>Phase 3: \<open>optimizeCompression\<close>\<close>

record step =
  step_quality :: rat
  step_scale :: rat

definition optimizationSteps :: "step list" where
  "optimizationSteps =
     [\<lparr> step_quality = 0.05, step_scale = 0.05 \<rparr>,
      \<lparr> step_quality = 0.1, step_scale = 0.1 \<rparr>,
      \<lparr> step_quality = 0.2, step_scale = 0.2 \<rparr>]"

text \<open>The \<open>while (improved)\<close> loop for one step size, on the variables \<open>bestResult\<close> and
  \<open>workingParams\<close>. Nothing bounds the number of its iterations: not returning is \<open>None\<close>.\<close>

partial_function (option) improve_loop ::
  "CONFIG \<Rightarrow> BitStreamEncoder \<Rightarrow> ImageBitmap \<Rightarrow> step \<Rightarrow> level_result \<times> compression_params
     \<Rightarrow> (level_result \<times> compression_params) option" where
  "improve_loop cfg encoder img stp vars =
     (case tryCompressionLevel cfg encoder img
             ((snd vars) \<lparr> quality := min 0.95 (quality (snd vars) + step_quality stp) \<rparr>) of
        None \<Rightarrow> None
      | Some qualityResult \<Rightarrow>
          (case tryCompressionLevel cfg encoder img
                  ((snd vars) \<lparr> scale := min 1.0 (scale (snd vars) + step_scale stp) \<rparr>) of
             None \<Rightarrow> None
           | Some scaleResult \<Rightarrow>
               if success qualityResult \<or> success scaleResult then
                 (let better = (if encodedLength qualityResult < encodedLength scaleResult
                                then qualityResult else scaleResult)
                  in if success better
                     then improve_loop cfg encoder img stp (better, params better)
                     else Some vars)
               else Some vars))"

declare improve_loop.simps [code]

text \<open>\<open>for (const step of optimizationSteps)\<close>\<close>

fun for_steps ::
  "CONFIG \<Rightarrow> BitStreamEncoder \<Rightarrow> ImageBitmap \<Rightarrow> step list \<Rightarrow> level_result \<times> compression_params
     \<Rightarrow> (level_result \<times> compression_params) option" where
  "for_steps cfg encoder img [] vars = Some vars"
| "for_steps cfg encoder img (stp # stps) vars =
     (case improve_loop cfg encoder img stp vars of
        None \<Rightarrow> None
      | Some vars' \<Rightarrow> for_steps cfg encoder img stps vars')"

text \<open>The function has no \<open>return\<close> statement: when its loops end, its result is \<open>undefined\<close>,
  which is the inner \<open>None\<close>.\<close>

definition optimizeCompression ::
  "CONFIG \<Rightarrow> BitStreamEncoder \<Rightarrow> ImageBitmap \<Rightarrow> string \<Rightarrow> compression_params
     \<Rightarrow> level_result option option" where
  "optimizeCompression cfg encoder img fmt workingParams =
     (case tryCompressionLevel cfg encoder img workingParams of
        None \<Rightarrow> None
      | Some bestResult0 \<Rightarrow>
          (case for_steps cfg encoder img optimizationSteps (bestResult0, workingParams) of
             None \<Rightarrow> None
           | Some vars \<Rightarrow> Some None))"

subsection \<open>\<open>compressImageHeuristic\<close>\<close>

text \<open>The result is the value returned (\<open>data\<close> of a result, which may be \<open>null\<close>) or the error
  thrown; reading \<open>optimized.data\<close> when \<open>optimized\<close> is \<open>undefined\<close> throws a \<open>TypeError\<close>.\<close>

definition compressImageHeuristic ::
  "CONFIG \<Rightarrow> BitStreamEncoder \<Rightarrow> ImageBitmap \<Rightarrow> string \<Rightarrow> (error + compressed option) option" where
  "compressImageHeuristic cfg encoder img targetFormat =
     (case tryCompressionLevel cfg encoder img
             \<lparr> format = targetFormat, quality = 0.95, scale = 1.0 \<rparr> of
        None \<Rightarrow> None
      | Some initialResult \<Rightarrow>
          if success initialResult then Some (Inr (data initialResult))
          else
            (case binarySearchCompression cfg encoder img targetFormat (encodedLength initialResult) of
               None \<Rightarrow> None
             | Some None \<Rightarrow> Some (Inl UnableToCompress)
             | Some (Some result) \<Rightarrow>
                 if success result then
                   (case optimizeCompression cfg encoder img targetFormat (params result) of
                      None \<Rightarrow> None
                    | Some None \<Rightarrow> Some (Inl TypeError)
                    | Some (Some optimized) \<Rightarrow> Some (Inr (data optimized)))
                 else Some (Inl UnableToCompress)))"

subsection \<open>\<open>detectOptimalFormat\<close>\<close>

text \<open>The body of the \<open>for (const format of formats)\<close> loop, on \<open>bestFormat\<close> (\<open>None\<close> is
  \<open>null\<close>) and \<open>smallestSize\<close>; a rejected trial is caught and changes nothing.\<close>

definition try_format ::
  "ImageBitmap \<Rightarrow> string \<Rightarrow> string option \<times> enat \<Rightarrow> string option \<times> enat" where
  "try_format img fmt vars =
     (case tryCompression img fmt 0.95 None None of
        Inl e \<Rightarrow> vars
      | Inr (buffer, sz) \<Rightarrow> if enat sz < snd vars then (Some fmt, enat sz) else vars)"

text \<open>\<open>bestFormat || file.type\<close>: \<open>null\<close> and the empty string are falsy.\<close>

definition detectOptimalFormat :: "CONFIG \<Rightarrow> ImageBitmap \<Rightarrow> string \<Rightarrow> string" where
  "detectOptimalFormat cfg img file_type =
     (let formats = filter (\<lambda>fmt. fmt \<noteq> ''image/svg+xml'' \<and> fmt \<noteq> ''image/gif'')
                      (SUPPORTED_INPUT_FORMATS cfg);
          vars = fold (try_format img) formats (None, \<infinity>)
      in case fst vars of
           None \<Rightarrow> file_type
         | Some bestFormat \<Rightarrow> if bestFormat = [] then file_type else bestFormat)"


section \<open>What the specification says, for comparison with the code\<close>

subsection \<open>The error taxonomy\<close>

text \<open>The specification names kinds of error where the code throws \<open>Error\<close> objects that
  differ in their message only. \<open>InvalidAlphabet\<close> is thrown by the constructor,
  \<open>InvalidSymbol\<close> by the two checks at the start of \<open>decodeBits\<close>, \<open>TruncatedPayload\<close> is the
  code's incomplete-data error and \<open>CompressionExhausted\<close> the final error of
  \<open>compressImageHeuristic\<close>.\<close>

datatype error_kind =
    InvalidAlphabet
  | InvalidSymbol
  | InvalidLengthPrefixKind
  | TruncatedPayload
  | EncoderFailure
  | CompressionExhausted
  | Unclassified

fun kind_of :: "error \<Rightarrow> error_kind" where
  "kind_of InvalidSafeChars = InvalidAlphabet"
| "kind_of DuplicateChars = InvalidAlphabet"
| "kind_of EmptyInput = InvalidSymbol"
| "kind_of (InvalidCharacters cs) = InvalidSymbol"
| "kind_of InvalidLengthPrefix = InvalidLengthPrefixKind"
| "kind_of (IncompleteData n m) = TruncatedPayload"
| "kind_of BlobCreationFailed = EncoderFailure"
| "kind_of UnableToCompress = CompressionExhausted"
| "kind_of RangeError = Unclassified"
| "kind_of TypeError = Unclassified"

subsection \<open>Decoding, in the words of the specification\<close>

text \<open>The index of a symbol in the alphabet, and the left-to-right fold
  \<open>V = V * R + symbolToIndex(symbol)\<close>.\<close>

fun symbolToIndex :: "string \<Rightarrow> char \<Rightarrow> nat" where
  "symbolToIndex [] c = 0"
| "symbolToIndex (a # as) c = (if a = c then 0 else Suc (symbolToIndex as c))"

definition spec_value :: "string \<Rightarrow> string \<Rightarrow> nat" where
  "spec_value alphabet s = foldl (\<lambda>v c. v * length alphabet + symbolToIndex alphabet c) 0 s"

text \<open>The minimal big-endian byte representation of an integer: no byte at all for 0, and
  otherwise no leading zero byte.\<close>

fun minimal_bytes :: "nat \<Rightarrow> byte list" where
  "minimal_bytes v = (if v = 0 then [] else minimal_bytes (v div 256) @ [of_nat (v mod 256)])"

declare minimal_bytes.simps [simp del]

text \<open>Left-padding with zero bytes until at least 4 bytes are present, and a byte sequence read
  as a big-endian unsigned integer.\<close>

definition pad_to_4 :: "byte list \<Rightarrow> byte list" where
  "pad_to_4 bs = replicate (4 - length bs) 0 @ bs"

definition big_endian :: "byte list \<Rightarrow> nat" where
  "big_endian bs = foldl (\<lambda>v b. v * 256 + unat b) 0 bs"

definition spec_decode :: "string \<Rightarrow> string \<Rightarrow> error_kind + byte list" where
  "spec_decode alphabet s =
     (if s = [] \<or> (\<exists>c \<in> set s. c \<notin> set alphabet) then Inl InvalidSymbol
      else
        let V = spec_value alphabet s;
            frame = pad_to_4 (minimal_bytes V);
            L = big_endian (take 4 frame);
            payload = drop 4 frame
        in if L = 0 then Inl InvalidLengthPrefixKind
           else if length payload < L then Inl TruncatedPayload
           else Inr (take L payload))"

subsection \<open>The bounds of the binary search across rounds\<close>

text \<open>A round \<open>b\<close> after bounds \<open>a\<close> tightens them at the midpoint of \<open>a\<close>: a trial that fits
  raises both lower bounds to the midpoint, one that does not lowers both upper bounds to it.\<close>

definition tightens :: "round \<Rightarrow> round \<Rightarrow> bool" where
  "tightens a b =
     (let mq = (lo_quality a + hi_quality a) / 2; ms = (lo_scale a + hi_scale a) / 2
      in if fits b
         then lo_quality b = mq \<and> lo_scale b = ms \<and> hi_quality b = hi_quality a \<and> hi_scale b = hi_scale a
         else hi_quality b = mq \<and> hi_scale b = ms \<and> lo_quality b = lo_quality a \<and> lo_scale b = lo_scale a)"

text \<open>The intervals of \<open>b\<close> lie within those of \<open>a\<close>, lower bound below upper bound.\<close>

definition nested :: "round \<Rightarrow> round \<Rightarrow> bool" where
  "nested a b =
     (lo_quality a \<le> lo_quality b \<and> lo_quality b \<le> hi_quality b \<and> hi_quality b \<le> hi_quality a \<and>
      lo_scale a \<le> lo_scale b \<and> lo_scale b \<le> hi_scale b \<and> hi_scale b \<le> hi_scale a)"

section \<open>Example inputs\<close>

text \<open>The encoder that the constructor builds for an alphabet (it builds one when the alphabet
  is not empty and has no repeated symbol), and the string that an encoder returns for a
  byte sequence (when it returns one).\<close>

definition encoder_for :: "string \<Rightarrow> BitStreamEncoder" where
  "encoder_for safeChars = projr (new_BitStreamEncoder safeChars)"

definition encoded_by :: "BitStreamEncoder \<Rightarrow> byte list \<Rightarrow> string" where
  "encoded_by enc bytes = (case encodeBits enc bytes of Some (Inr s) \<Rightarrow> s | _ \<Rightarrow> [])"

text \<open>A configuration with the hex alphabet and a budget of 3 characters: the encoding of the
  one-byte buffer \<open>[1]\<close> is \<open>101\<close> and fits, that of \<open>[1, 1]\<close> is \<open>20101\<close> and does not.\<close>

definition example_config :: CONFIG where
  "example_config =
     \<lparr> CONFIG_SAFE_CHARS = ''0123456789abcdef'', MAX_URL_LENGTH = 3,
       SUPPORTED_INPUT_FORMATS = [''image/jpeg'', ''image/png'', ''image/webp'', ''image/gif''] \<rparr>"

definition example_encoder :: BitStreamEncoder where
  "example_encoder = encoder_for (CONFIG_SAFE_CHARS example_config)"

text \<open>A deterministic stub for the renderer: an image of 100 by 100 pixels whose rendering
  at width \<open>w\<close> and quality \<open>q\<close> is the small buffer when \<open>small w q\<close> holds and the large
  one otherwise; a canvas without dimensions gives no blob.\<close>

definition stub_image :: "(int \<Rightarrow> rat \<Rightarrow> bool) \<Rightarrow> ImageBitmap" where
  "stub_image small =
     \<lparr> width = 100, height = 100,
       toBlob = (\<lambda>w h fmt q. case w of None \<Rightarrow> None
                                | Some w' \<Rightarrow> Some (if small w' q then [1] else [1, 1])) \<rparr>"

text \<open>An image that the renderer rejects at every parameter point.\<close>

definition rejected_image :: ImageBitmap where
  "rejected_image = \<lparr> width = 100, height = 100, toBlob = (\<lambda>w h fmt q. None) \<rparr>"

text \<open>Three renderers: the buffer is small below the full width; below the full width and
  below the quality cap; up to a width of 60.\<close>

definition below_full_size :: "int \<Rightarrow> rat \<Rightarrow> bool" where
  "below_full_size w q = (w < 100)"

definition below_both_caps :: "int \<Rightarrow> rat \<Rightarrow> bool" where
  "below_both_caps w q = (w < 100 \<and> q < 0.95)"

definition up_to_60 :: "int \<Rightarrow> rat \<Rightarrow> bool" where
  "up_to_60 w q = (w \<le> 60)"

text \<open>The two results of a trial on a stub image under \<open>example_config\<close>.\<close>

definition fit_result :: "compression_params \<Rightarrow> level_result" where
  "fit_result ps =
     \<lparr> success = True, encodedLength = enat 3,
       data = Some \<lparr> encoded = ''101'', data_format = format ps, data_size = 1 \<rparr>, params = ps \<rparr>"

definition unfit_result :: "compression_params \<Rightarrow> level_result" where
  "unfit_result ps = \<lparr> success = False, encodedLength = enat 5, data = None, params = ps \<rparr>"

section \<open>Lemmas about the codec\<close>

subsection \<open>The tables of the constructor\<close>

lemma tables_fst:
  assumes "distinct s" 
  shows "k \<le> length s \<Longrightarrow> fst (fold (set_tables s) [0..<k] (Map.empty, Map.empty)) c = Some i \<longleftrightarrow> i < k \<and> s ! i = c"
proof (induction k arbitrary: c i)
  case 0
  show ?case by simp
next
  case (Suc k)
  then have k: "k < length s" "k \<le> length s" by simp_all
  show ?case
  proof (cases "c = s ! k")
    case True
    have "i < Suc k \<and> s ! i = s ! k \<longleftrightarrow> i = k"
      using k assms by (auto simp: nth_eq_iff_index_eq)
    then show ?thesis using True
      by (auto simp: set_tables_def)
  next
    case False
    have "i < Suc k \<and> s ! i = c \<longleftrightarrow> i < k \<and> s ! i = c"
      using False by (auto simp: less_Suc_eq)
    then show ?thesis using Suc.IH[OF k(2), of c i] False
      by (simp add: set_tables_def)
  qed
qed

lemma tables_snd:
  "snd (fold (set_tables s) [0..<k] (Map.empty, Map.empty)) j = (if j < k then Some (s ! j) else None)"
  by (induction k) (simp_all add: set_tables_def)

lemma constructor_facts:
  assumes "new_BitStreamEncoder s = Inr enc"
  shows "SAFE_CHARS enc = s" "RADIX enc = length s" "distinct s" "s \<noteq> []"
    "charToIndex enc c = Some i \<longleftrightarrow> i < length s \<and> s ! i = c"
    "indexToChar enc j = (if j < length s then Some (s ! j) else None)"
proof -
  from assms have ne: "s \<noteq> []" and card: "card (set s) = length s"
    and enc: "enc = \<lparr> SAFE_CHARS = s, RADIX = length s,
       charToIndex = fst (fold (set_tables s) [0 ..< length s] (Map.empty, Map.empty)),
       indexToChar = snd (fold (set_tables s) [0 ..< length s] (Map.empty, Map.empty)) \<rparr>"
    by (auto simp: new_BitStreamEncoder_def Let_def split: if_splits)
  from card show d: "distinct s" by (simp add: card_distinct)
  show "s \<noteq> []" by (rule ne)
  show "SAFE_CHARS enc = s" "RADIX enc = length s" by (simp_all add: enc)
  show "charToIndex enc c = Some i \<longleftrightarrow> i < length s \<and> s ! i = c"
    using tables_fst [OF d, of "length s" c i] by (simp add: enc)
  show "indexToChar enc j = (if j < length s then Some (s ! j) else None)"
    by (simp add: enc tables_snd)
qed

lemma charToIndex_None:
  assumes "new_BitStreamEncoder s = Inr enc"
  shows "charToIndex enc c = None \<longleftrightarrow> c \<notin> set s"
proof
  assume "charToIndex enc c = None"
  show "c \<notin> set s"
  proof
    assume "c \<in> set s"
    then obtain i where "i < length s" "s ! i = c" by (auto simp: in_set_conv_nth)
    then have "charToIndex enc c = Some i" using constructor_facts(5)[OF assms] by blast
    with \<open>charToIndex enc c = None\<close> show False by simp
  qed
next
  assume n: "c \<notin> set s"
  show "charToIndex enc c = None"
  proof (cases "charToIndex enc c")
    case (Some i)
    then have "i < length s \<and> s ! i = c" using constructor_facts(5)[OF assms] by blast
    with n show ?thesis by auto
  qed simp
qed

subsection \<open>The digits of the encoder\<close>

text \<open>With a radix of at least 2 the loop of \<open>encodeBits\<close> returns, its digits are symbols of
  the alphabet, and the fold of \<open>decodeBits\<close> over them gives the value back.\<close>

lemma encode_loop_digits:
  assumes enc: "new_BitStreamEncoder s = Inr enc" and R: "2 \<le> length s"
  shows "\<exists>ds. encode_loop enc v chunks = Some (Inr (ds @ chunks))
           \<and> set (concat ds) \<subseteq> set s
           \<and> (v > 0 \<longrightarrow> concat ds \<noteq> [])
           \<and> (\<forall>cs acc. string_to_value enc (concat ds @ cs) acc
                  = string_to_value enc cs (acc * length s ^ length (concat ds) + v))"
proof (induction v arbitrary: chunks rule: less_induct)
  case (less v)
  note cf = constructor_facts[OF enc]
  show ?case
  proof (cases "v = 0")
    case True
    have "encode_loop enc v chunks = Some (Inr ([] @ chunks))"
      using True by (subst encode_loop.simps) simp
    then show ?thesis using True by (intro exI[of _ "[]"]) simp
  next
    case False
    define d where "d = v mod length s"
    define q where "q = v div length s"
    have pos: "0 < length s" "1 < length s" using R by linarith+
    have dlt: "d < length s" using pos by (simp add: d_def)
    have qlt: "q < v" using pos False by (simp add: q_def)
    have ca: "char_at s d = [s ! d]" using dlt by (simp add: char_at_def)
    from less.IH[OF qlt, of "[s ! d] # chunks"]
    obtain ds where ds: "encode_loop enc q ([s ! d] # chunks) = Some (Inr (ds @ [s ! d] # chunks))"
      and sub: "set (concat ds) \<subseteq> set s"
      and hor: "\<And>cs acc. string_to_value enc (concat ds @ cs) acc
                  = string_to_value enc cs (acc * length s ^ length (concat ds) + q)"
      by blast
    have step: "encode_loop enc v chunks = encode_loop enc q ([s ! d] # chunks)"
      using False pos ca by (subst encode_loop.simps) (simp add: cf(1,2) d_def q_def)
    have idx: "charToIndex enc (s ! d) = Some d" using cf(5) dlt by blast
    have v: "q * length s + d = v" by (simp add: d_def q_def)
    show ?thesis
    proof (intro exI[of _ "ds @ [[s ! d]]"] conjI allI impI)
      show "encode_loop enc v chunks = Some (Inr ((ds @ [[s ! d]]) @ chunks))"
        using step ds by simp
      show "set (concat (ds @ [[s ! d]])) \<subseteq> set s" using sub dlt by auto
      show "concat (ds @ [[s ! d]]) \<noteq> []" by simp
      fix cs acc
      have "string_to_value enc (concat (ds @ [[s ! d]]) @ cs) acc
            = string_to_value enc ((s ! d) # cs) (acc * length s ^ length (concat ds) + q)"
        using hor[of "(s ! d) # cs" acc] by simp
      also have "\<dots> = string_to_value enc cs ((acc * length s ^ length (concat ds) + q) * length s + d)"
        by (simp add: idx cf(2))
      also have "(acc * length s ^ length (concat ds) + q) * length s + d
                 = acc * length s ^ length (concat (ds @ [[s ! d]])) + v"
        using v by (simp add: algebra_simps)
      finally show "string_to_value enc (concat (ds @ [[s ! d]]) @ cs) acc
            = string_to_value enc cs (acc * length s ^ length (concat (ds @ [[s ! d]])) + v)" .
    qed
  qed
qed

subsection \<open>Bytes and integers\<close>

lemma shift_or_byte: "push_bit 8 (v::nat) OR unat (b::byte) = v * 256 + unat b"
proof -
  have "push_bit 8 v AND unat b = 0"
  proof (rule bit_eqI)
    fix n
    have nb: "\<not> bit (unat b) n" if "8 \<le> n" using that
      by (auto simp: bit_unsigned_iff dest: bit_imp_le_length)
    show "bit (push_bit 8 v AND unat b) n = bit (0::nat) n"
      using nb by (auto simp: bit_and_iff bit_push_bit_iff)
  qed
  then have "push_bit 8 v + unat b = push_bit 8 v OR unat b"
    by (rule disjunctive_add_eq_or)
  then show ?thesis by (simp add: push_bit_eq_mult)
qed

lemma bytes_to_value_fold:
  "fold (\<lambda>byte value. push_bit 8 value OR unat byte) bs v = fold (\<lambda>(b::byte) v. v * 256 + unat b) bs v"
  by (simp add: shift_or_byte)

lemma fold_pos: "0 < v \<Longrightarrow> 0 < fold (\<lambda>(b::byte) v. v * 256 + unat b) bs v"
  by (induction bs arbitrary: v) simp_all

lemma unat_byte_less: "unat (b::byte) < 256"
  using unsigned_less [of b, where ?'a = nat] by simp

lemma low_byte: "(of_nat ((v * 256 + unat (b::byte)) AND 255) :: byte) = b"
proof -
  have "(v * 256 + unat b) AND 255 = (v * 256 + unat b) mod 2 ^ 8"
    using take_bit_eq_mask [of 8 "v * 256 + unat b"] by (simp add: take_bit_eq_mod mask_eq_exp_minus_1)
  also have "\<dots> = unat b" using unat_byte_less [of b] by simp
  finally show ?thesis by simp
qed

lemma high_part: "drop_bit 8 (v * 256 + unat (b::byte)) = v"
  using unat_byte_less [of b] by (simp add: drop_bit_eq_div)

lemma value_to_bytes_step:
  "0 < v \<Longrightarrow> value_to_bytes (v * 256 + unat b) acc = value_to_bytes v (b # acc)"
  by (subst value_to_bytes.simps) (simp add: low_byte high_part)

lemma value_to_bytes_fold:
  "0 < v \<Longrightarrow> value_to_bytes (fold (\<lambda>(b::byte) v. v * 256 + unat b) bs v) acc = value_to_bytes v (bs @ acc)"
proof (induction bs arbitrary: acc rule: rev_induct)
  case Nil
  show ?case by simp
next
  case (snoc b bs)
  have "0 < fold (\<lambda>(b::byte) v. v * 256 + unat b) bs v" using snoc.prems by (rule fold_pos)
  then show ?case using snoc.IH[OF snoc.prems, of "b # acc"]
    by (simp add: value_to_bytes_step)
qed

lemma value_to_bytes_frame:
  assumes "b \<noteq> 0"
  shows "value_to_bytes (bytes_to_value (b # bs)) [] = b # bs"
proof -
  have pos: "0 < unat b" using assms by (simp add: unat_gt_0)
  have "bytes_to_value (b # bs) = fold (\<lambda>(b::byte) v. v * 256 + unat b) bs (unat b)"
    by (simp add: bytes_to_value_def bytes_to_value_fold)
  then have "value_to_bytes (bytes_to_value (b # bs)) [] = value_to_bytes (unat b) bs"
    using value_to_bytes_fold[OF pos, of bs "[]"] by simp
  also have "\<dots> = value_to_bytes 0 (b # bs)"
    using pos low_byte[of 0 b] high_part[of 0 b] by (subst value_to_bytes.simps) simp
  also have "\<dots> = b # bs" by (subst value_to_bytes.simps) simp
  finally show ?thesis .
qed

lemma bytes_to_value_pos:
  assumes "b \<noteq> 0"
  shows "0 < bytes_to_value (b # bs)"
proof -
  have pos: "0 < unat b" using assms by (simp add: unat_gt_0)
  show ?thesis using fold_pos[OF pos, of bs]
    by (simp add: bytes_to_value_def bytes_to_value_fold)
qed

lemma pad4_id: "4 \<le> length bs \<Longrightarrow> pad4 bs = bs"
  by (subst pad4.simps) simp

lemma setUint32_length: "length (setUint32 n) = 4"
  by (simp add: setUint32_def Let_def)

lemma split_u32:
  "(m::nat) mod 4294967296 = 16777216 * (m div 16777216 mod 256) + 65536 * (m div 65536 mod 256)
      + 256 * (m div 256 mod 256) + m mod 256"
proof -
  have a: "m mod 65536 = 256 * (m div 256 mod 256) + m mod 256"
    using mod_mult2_eq [of m 256 256] by simp
  have b: "m mod 16777216 = 65536 * (m div 65536 mod 256) + m mod 65536"
    using mod_mult2_eq [of m 65536 256] by simp
  have c: "m mod 4294967296 = 16777216 * (m div 16777216 mod 256) + m mod 16777216"
    using mod_mult2_eq [of m 16777216 256] by simp
  show ?thesis using a b c by linarith
qed

lemma getUint32_setUint32: "getUint32 (setUint32 n) = n mod 2 ^ 32"
proof -
  define m where "m = n mod 4294967296"
  have m: "m mod 4294967296 = m" by (simp add: m_def)
  have "getUint32 (setUint32 n) = (m div 16777216) mod 256 * 16777216 + (m div 65536) mod 256 * 65536
      + (m div 256) mod 256 * 256 + m mod 256"
    by (simp add: getUint32_def setUint32_def Let_def m_def unat_of_nat)
  also have "\<dots> = m" using split_u32 [of m] m by linarith
  finally show ?thesis by (simp add: m_def)
qed

lemma setUint32_hd:
  assumes "2 ^ 24 \<le> n" "n < 2 ^ 32"
  shows "hd (setUint32 n) \<noteq> 0"
proof -
  have lo: "16777216 \<le> n" and hi: "n < 256 * 16777216" using assms by simp_all
  have k1: "n div 16777216 < 256" using hi by (simp add: less_mult_imp_div_less)
  have k0: "0 < n div 16777216" using lo by (simp add: div_greater_zero_iff)
  have "unat (of_nat (n div 16777216) :: byte) = n div 16777216"
    using k1 by (simp add: unat_of_nat)
  with k0 have "(of_nat (n div 16777216) :: byte) \<noteq> 0" by (metis less_numeral_extra(3) unat_0)
  then show ?thesis using assms by (simp add: setUint32_def Let_def)
qed

subsection \<open>Encoding followed by decoding\<close>

lemma constructor_succeeds:
  assumes "distinct s" "s \<noteq> []"
  shows "\<exists>enc. new_BitStreamEncoder s = Inr enc"
  using assms by (simp add: new_BitStreamEncoder_def Let_def distinct_card)

lemma encodeBits_nonzero:
  assumes enc: "new_BitStreamEncoder s = Inr enc" and R: "2 \<le> length s"
    and v: "0 < bytes_to_value (setUint32 (length payload) @ payload)"
  shows "\<exists>str. encodeBits enc payload = Some (Inr str) \<and> str \<noteq> [] \<and> set str \<subseteq> set s
           \<and> string_to_value enc str 0 = Inr (bytes_to_value (setUint32 (length payload) @ payload))"
proof -
  define V where "V = bytes_to_value (setUint32 (length payload) @ payload)"
  from encode_loop_digits[OF enc R, of V "[]"]
  obtain ds where ds: "encode_loop enc V [] = Some (Inr ds)"
    and sub: "set (concat ds) \<subseteq> set s" and ne: "concat ds \<noteq> []"
    and hor: "\<And>cs acc. string_to_value enc (concat ds @ cs) acc
                  = string_to_value enc cs (acc * length s ^ length (concat ds) + V)"
    using v unfolding V_def by auto
  have "encodeBits enc payload = Some (Inr (concat ds))"
    using v ds by (simp add: encodeBits_def Let_def V_def)
  moreover have "string_to_value enc (concat ds) 0 = Inr V"
    using hor[of "[]" 0] by simp
  ultimately show ?thesis using sub ne unfolding V_def by blast
qed

lemma decodeBits_valid:
  assumes enc: "new_BitStreamEncoder s = Inr enc"
    and str: "str \<noteq> []" "set str \<subseteq> set s" and val: "string_to_value enc str 0 = Inr v"
  shows "decodeBits enc str =
     (let bytes = pad4 (if v = 0 then [0] else value_to_bytes v []);
          expectedLength = getUint32 (take 4 bytes @ replicate (4 - length (take 4 bytes)) 0)
      in if expectedLength \<le> 0 then Inl InvalidLengthPrefix
         else if length (drop 4 bytes) < expectedLength
              then Inl (IncompleteData expectedLength (length (drop 4 bytes)))
              else Inr (take expectedLength (drop 4 bytes)))"
proof -
  have F: "filter (\<lambda>c. charToIndex enc c = None) str = []"
    using str(2) by (auto simp: filter_empty_conv charToIndex_None[OF enc])
  show ?thesis
    unfolding decodeBits_def Let_def F
    using str(1) val by (simp only: length_0_conv if_False list.size less_irrefl sum.case)
qed

lemma roundtrip_large:
  assumes enc: "new_BitStreamEncoder s = Inr enc" and R: "2 \<le> length s"
    and lo: "2 ^ 24 \<le> length payload" and hi: "length payload < 2 ^ 32"
  shows "\<exists>str. encodeBits enc payload = Some (Inr str) \<and> decodeBits enc str = Inr payload"
proof -
  obtain p ps where p: "setUint32 (length payload) = p # ps" 
    using setUint32_length[of "length payload"] by (cases "setUint32 (length payload)") auto
  have p0: "p \<noteq> 0" using setUint32_hd[OF lo hi] p by simp
  have len: "length (setUint32 (length payload)) = 4" by (rule setUint32_length)
  define frame where "frame = setUint32 (length payload) @ payload"
  have fr: "frame = p # (ps @ payload)" by (simp add: frame_def p)
  have pos: "0 < bytes_to_value frame" unfolding fr using p0 by (rule bytes_to_value_pos)
  from encodeBits_nonzero[OF enc R, of payload] pos
  obtain str where e: "encodeBits enc payload = Some (Inr str)" and s1: "str \<noteq> []"
    and s2: "set str \<subseteq> set s" and s3: "string_to_value enc str 0 = Inr (bytes_to_value frame)"
    by (auto simp: frame_def)
  have vb: "value_to_bytes (bytes_to_value frame) [] = frame"
    unfolding fr using p0 by (rule value_to_bytes_frame)
  have "pad4 frame = frame" by (rule pad4_id) (simp add: frame_def len)
  then have pd: "pad4 (if bytes_to_value frame = 0 then [0] else value_to_bytes (bytes_to_value frame) [])
       = frame" using pos vb by simp
  have la: "take 4 frame @ replicate (4 - length (take 4 frame)) 0 = setUint32 (length payload)"
    by (simp add: frame_def len)
  have dr: "drop 4 frame = payload" by (simp add: frame_def len)
  have g: "getUint32 (setUint32 (length payload)) = length payload"
    using hi by (simp add: getUint32_setUint32)
  have npos: "0 < length payload" using lo by auto
  have "decodeBits enc str = Inr payload"
    unfolding decodeBits_valid[OF enc s1 s2 s3] Let_def
    using npos by (simp only: pd la dr g) simp
  with e show ?thesis by blast
qed


subsection \<open>The decoder and the specification's decoder\<close>

lemma symbolToIndex_nth:
  "c \<in> set as \<Longrightarrow> symbolToIndex as c < length as \<and> as ! symbolToIndex as c = c"
  by (induction as) auto

lemma string_to_value_spec:
  assumes enc: "new_BitStreamEncoder alphabet = Inr enc"
  shows "set s \<subseteq> set alphabet \<Longrightarrow>
     string_to_value enc s v = Inr (foldl (\<lambda>v c. v * length alphabet + symbolToIndex alphabet c) v s)"
proof (induction s arbitrary: v)
  case Nil
  show ?case by simp
next
  case (Cons c cs)
  have "c \<in> set alphabet" using Cons.prems by simp
  then have "charToIndex enc c = Some (symbolToIndex alphabet c)"
    using constructor_facts(5)[OF enc, of c "symbolToIndex alphabet c"] symbolToIndex_nth by blast
  then show ?case using Cons by (simp add: constructor_facts(2)[OF enc])
qed

lemma pad4_eq: "pad4 bs = pad_to_4 bs"
proof (induction "4 - length bs" arbitrary: bs)
  case 0
  then show ?case by (subst pad4.simps) (simp add: pad_to_4_def)
next
  case (Suc n)
  then have l: "length bs < 4" and n: "n = 4 - length (0 # bs)" by simp_all
  have "pad4 bs = pad4 (0 # bs)" using l by (subst pad4.simps) simp
  also have "\<dots> = pad_to_4 (0 # bs)" by (rule Suc.hyps(1)[OF n])
  also have "\<dots> = pad_to_4 bs"
  proof -
    have "4 - length bs = Suc (3 - length bs)" using l by simp
    then show ?thesis by (simp add: pad_to_4_def replicate_app_Cons_same)
  qed
  finally show ?case .
qed

lemma value_to_bytes_minimal: "value_to_bytes v acc = minimal_bytes v @ acc"
proof (induction v arbitrary: acc rule: less_induct)
  case (less v)
  show ?case
  proof (cases "v = 0")
    case True
    then show ?thesis by (subst value_to_bytes.simps, subst minimal_bytes.simps) simp
  next
    case False
    have a: "v AND 255 = v mod 256"
      using take_bit_eq_mask [of 8 v] by (simp add: take_bit_eq_mod mask_eq_exp_minus_1)
    have d: "drop_bit 8 v = v div 256" by (simp add: drop_bit_eq_div)
    have lt: "v div 256 < v" using False by simp
    have "value_to_bytes v acc = value_to_bytes (v div 256) (of_nat (v mod 256) # acc)"
      using False by (subst value_to_bytes.simps) (simp add: a d)
    also have "\<dots> = minimal_bytes (v div 256) @ of_nat (v mod 256) # acc"
      by (rule less.IH[OF lt])
    also have "\<dots> = minimal_bytes v @ acc"
      using False by (subst (2) minimal_bytes.simps) simp
    finally show ?thesis .
  qed
qed

lemma decoded_bytes_eq:
  "pad4 (if v = 0 then [0] else value_to_bytes v []) = pad_to_4 (minimal_bytes v)"
proof (cases "v = 0")
  case True
  have "minimal_bytes 0 = []" by (subst minimal_bytes.simps) simp
  then show ?thesis using True by (simp add: pad4_eq pad_to_4_def numeral_eq_Suc)
next
  case False
  then show ?thesis by (simp add: pad4_eq value_to_bytes_minimal)
qed

lemma length_pad_to_4: "4 \<le> length (pad_to_4 bs)"
  by (simp add: pad_to_4_def)

lemma getUint32_big_endian: "length bs = 4 \<Longrightarrow> getUint32 bs = big_endian bs"
proof -
  assume "length bs = 4"
  then obtain a b c d where "bs = [a, b, c, d]"
    by (auto simp: length_Suc_conv numeral_eq_Suc)
  then show ?thesis by (simp add: getUint32_def big_endian_def)
qed

lemma encoder_for:
  assumes "distinct s" "s \<noteq> []"
  shows "new_BitStreamEncoder s = Inr (encoder_for s)"
  using constructor_succeeds[OF assms] by (auto simp: encoder_for_def)

lemma hex_encoder: "new_BitStreamEncoder ''0123456789abcdef'' = Inr (encoder_for ''0123456789abcdef'')"
  by (rule encoder_for) simp_all

subsection \<open>Payloads of fewer than \<open>2^24\<close> bytes\<close>

text \<open>The length header of such a payload starts with a zero byte, which the integer does not
  keep: the decoder reads a length of at least \<open>2^24\<close>, or finds no payload byte at all.\<close>

lemma bytes_to_value_dropWhile:
  "bytes_to_value (dropWhile (\<lambda>b. b = 0) bs) = bytes_to_value bs"
proof (induction bs)
  case Nil show ?case by simp
next
  case (Cons b bs)
  have z: "bytes_to_value (0 # bs) = bytes_to_value bs"
    by (simp add: bytes_to_value_def)
  show ?case using Cons z by (cases "b = 0") simp_all
qed

lemma getUint32_lower:
  assumes "length bs = 4" "bs ! 0 \<noteq> 0"
  shows "2 ^ 24 \<le> getUint32 bs"
proof -
  have "0 < unat (bs ! 0)" using assms(2) by (simp add: unat_gt_0)
  then have "1 * 2 ^ 24 \<le> unat (bs ! 0) * 2 ^ 24" by (intro mult_le_mono1) simp
  then show ?thesis by (simp add: getUint32_def)
qed

lemma getUint32_pos:
  assumes "length bs = 4" "\<exists>b \<in> set bs. b \<noteq> 0"
  shows "0 < getUint32 bs"
proof -
  obtain a b c d where bs: "bs = [a, b, c, d]"
    using assms(1) by (auto simp: length_Suc_conv numeral_eq_Suc)
  then have "a \<noteq> 0 \<or> b \<noteq> 0 \<or> c \<noteq> 0 \<or> d \<noteq> 0" using assms(2) by auto
  then have "0 < unat a \<or> 0 < unat b \<or> 0 < unat c \<or> 0 < unat d" by (simp add: unat_gt_0)
  then show ?thesis by (auto simp: bs getUint32_def)
qed

lemma roundtrip_short:
  assumes enc: "new_BitStreamEncoder s = Inr enc" and R: "2 \<le> length s"
    and lo: "1 \<le> length payload" and hi: "length payload < 2 ^ 24"
  shows "\<exists>str L k. encodeBits enc payload = Some (Inr str) \<and> decodeBits enc str = Inl (IncompleteData L k)"
proof -
  define n where "n = length payload"
  define frame where "frame = setUint32 n @ payload"
  define m where "m = dropWhile (\<lambda>b. b = 0) frame"
  have n32: "n mod 2 ^ 32 = n" using hi by (simp add: n_def)
  have g: "getUint32 (setUint32 n) = n" using n32 by (simp add: getUint32_setUint32)
  have len4: "length (setUint32 n) = 4" by (rule setUint32_length)
  have hd0: "setUint32 n ! 0 = 0"
  proof -
    have "n div 2 ^ 24 = 0" using hi by (simp add: n_def)
    then show ?thesis by (simp add: setUint32_def Let_def n32[simplified])
  qed
  have nz: "\<exists>b \<in> set (setUint32 n). b \<noteq> 0"
  proof (rule ccontr)
    assume "\<not> ?thesis"
    then have "\<forall>i < 4. setUint32 n ! i = 0" using len4 nth_mem[of _ "setUint32 n"] by auto
    then have "getUint32 (setUint32 n) = 0" by (simp add: getUint32_def)
    then show False using g lo by (simp add: n_def)
  qed
  have mne: "m \<noteq> []" using nz by (auto simp: m_def frame_def dropWhile_eq_Nil_conv)
  have hdm: "hd m \<noteq> 0" using mne unfolding m_def by (metis (mono_tags) hd_dropWhile)
  obtain b bs where mb: "m = b # bs" using mne by (cases m) auto
  have b0: "b \<noteq> 0" using hdm mb by simp
  have V: "bytes_to_value frame = bytes_to_value m" by (simp add: m_def bytes_to_value_dropWhile)
  have pos: "0 < bytes_to_value frame" unfolding V mb using b0 by (rule bytes_to_value_pos)
  have vb: "value_to_bytes (bytes_to_value frame) [] = m"
    unfolding V mb using b0 by (rule value_to_bytes_frame)
  have lm: "length m \<le> 3 + n"
  proof -
    obtain r where fr: "setUint32 n = 0 # r" and lr: "length r = 3"
      using len4 hd0 by (cases "setUint32 n") auto
    have "m = dropWhile (\<lambda>b. b = 0) (r @ payload)" by (simp add: m_def frame_def fr)
    then have "length m \<le> length (r @ payload)"
      using length_dropWhile_le[of "\<lambda>b. b = 0" "r @ payload"] by simp
    then show ?thesis using lr by (simp add: n_def)
  qed
  from encodeBits_nonzero[OF enc R, of payload] pos
  obtain str where e: "encodeBits enc payload = Some (Inr str)" and s1: "str \<noteq> []"
    and s2: "set str \<subseteq> set s" and s3: "string_to_value enc str 0 = Inr (bytes_to_value frame)"
    by (auto simp: frame_def n_def)
  define bytes where "bytes = pad4 m"
  have by_eq: "pad4 (if bytes_to_value frame = 0 then [0] else value_to_bytes (bytes_to_value frame) []) = bytes"
    using pos vb by (simp add: bytes_def)
  have bl: "length bytes \<ge> 4" by (simp add: bytes_def pad4_eq length_pad_to_4)
  define L where "L = getUint32 (take 4 bytes @ replicate (4 - length (take 4 bytes)) 0)"
  have la: "take 4 bytes @ replicate (4 - length (take 4 bytes)) 0 = take 4 bytes"
    using bl by simp
  have short: "length (drop 4 bytes) < L \<and> 0 < L"
  proof (cases "4 \<le> length m")
    case True
    then have bm: "bytes = m" by (simp add: bytes_def pad4_id)
    have "take 4 bytes ! 0 = b" using True by (simp add: bm mb)
    then have "2 ^ 24 \<le> L" unfolding L_def la using b0 bl by (intro getUint32_lower) simp_all
    moreover have "length (drop 4 bytes) < 2 ^ 24" using lm hi by (simp add: bm n_def)
    ultimately show ?thesis by simp
  next
    case False
    then have bp: "bytes = replicate (4 - length m) 0 @ m" by (simp add: bytes_def pad4_eq pad_to_4_def)
    have l4: "length bytes = 4" using False by (simp add: bp)
    have "b \<in> set (take 4 bytes)" using l4 by (simp add: bp mb)
    then have "0 < L" unfolding L_def la using b0 l4 by (intro getUint32_pos) auto
    then show ?thesis using l4 by simp
  qed
  have "decodeBits enc str = Inl (IncompleteData L (length (drop 4 bytes)))"
    unfolding decodeBits_valid[OF enc s1 s2 s3] Let_def by_eq L_def[symmetric]
    using short by simp
  with e show ?thesis by blast
qed

section \<open>The claims about the codec\<close>

subsection \<open>C7: the constructor\<close>



subsection \<open>C1: encoding followed by decoding\<close>








subsection \<open>C4: the decoder against the steps of the specification\<close>

text \<open>
  Claim C4. For every string \<open>s\<close>, \<open>decodeBits\<close> does what the specification's steps say:
  it rebuilds the integer \<open>V\<close>, takes the minimal big-endian bytes of \<open>V\<close>, pads them on the
  left with zero bytes to at least 4 bytes, reads the first 4 bytes as the length \<open>L\<close>, fails
  with the invalid-length-prefix error if \<open>L = 0\<close>, with the truncated-payload error if fewer
  than \<open>L\<close> bytes follow, and returns the first \<open>L\<close> of the following bytes otherwise.
\<close>

theorem decodeBits_refines_spec:
  assumes enc: "new_BitStreamEncoder alphabet = Inr enc"
  shows "map_sum kind_of id (decodeBits enc s) = spec_decode alphabet s"
proof (cases "s = [] \<or> (\<exists>c \<in> set s. c \<notin> set alphabet)")
  case True
  then have "s = [] \<or> filter (\<lambda>c. charToIndex enc c = None) s \<noteq> []"
    by (auto simp: filter_empty_conv charToIndex_None[OF enc])
  then have "\<exists>e. decodeBits enc s = Inl e \<and> kind_of e = InvalidSymbol"
    by (auto simp: decodeBits_def Let_def)
  then show ?thesis using True by (auto simp: spec_decode_def)
next
  case False
  then have s: "s \<noteq> []" "set s \<subseteq> set alphabet" by auto
  define V where "V = spec_value alphabet s"
  have v: "string_to_value enc s 0 = Inr V"
    using string_to_value_spec[OF enc s(2), of 0] by (simp add: V_def spec_value_def)
  define frame where "frame = pad_to_4 (minimal_bytes V)"
  have fl: "4 \<le> length frame" by (simp add: frame_def length_pad_to_4)
  have la: "take 4 frame @ replicate (4 - length (take 4 frame)) 0 = take 4 frame"
    using fl by simp
  have g: "getUint32 (take 4 frame) = big_endian (take 4 frame)"
    using fl by (intro getUint32_big_endian) simp
  have "decodeBits enc s =
      (if big_endian (take 4 frame) \<le> 0 then Inl InvalidLengthPrefix
       else if length (drop 4 frame) < big_endian (take 4 frame)
            then Inl (IncompleteData (big_endian (take 4 frame)) (length (drop 4 frame)))
            else Inr (take (big_endian (take 4 frame)) (drop 4 frame)))"
    unfolding decodeBits_valid[OF enc s v] Let_def decoded_bytes_eq frame_def[symmetric] la g ..
  moreover have "spec_decode alphabet s =
      (if big_endian (take 4 frame) = 0 then Inl InvalidLengthPrefixKind
       else if length (drop 4 frame) < big_endian (take 4 frame) then Inl TruncatedPayload
       else Inr (take (big_endian (take 4 frame)) (drop 4 frame)))"
    using False unfolding spec_decode_def Let_def V_def[symmetric] frame_def[symmetric]
    by (simp only: if_False)
  ultimately show ?thesis by simp
qed

text \<open>The hex alphabet and the string \<open>30001ff\<close>: both sides report a truncated payload.\<close>

theorem decodeBits_refines_spec_witness:
  "new_BitStreamEncoder ''0123456789abcdef'' = Inr (encoder_for ''0123456789abcdef'') \<and>
   map_sum kind_of id (decodeBits (encoder_for ''0123456789abcdef'') ''30001ff'')
     = spec_decode ''0123456789abcdef'' ''30001ff'' \<and>
   spec_decode ''0123456789abcdef'' ''30001ff'' = Inl TruncatedPayload"
proof -
  have len: "length ''0123456789abcdef'' = 16" by simp
  have i: "symbolToIndex ''0123456789abcdef'' (CHR ''3'') = 3"
     "symbolToIndex ''0123456789abcdef'' (CHR ''0'') = 0"
     "symbolToIndex ''0123456789abcdef'' (CHR ''1'') = 1"
     "symbolToIndex ''0123456789abcdef'' (CHR ''f'') = 15"
    by simp_all
  have v: "spec_value ''0123456789abcdef'' ''30001ff'' = 50332159"
    unfolding spec_value_def foldl.simps i len by simp
  have m: "minimal_bytes 50332159 = [3, 0, 1, 255]"
    by (simp add: minimal_bytes.simps)
  have "spec_decode ''0123456789abcdef'' ''30001ff'' = Inl TruncatedPayload"
    by (simp add: spec_decode_def Let_def v m pad_to_4_def big_endian_def)
  then show ?thesis
    using decodeBits_refines_spec[OF hex_encoder, of "''30001ff''"] hex_encoder by simp
qed

subsection \<open>C6: invalid symbols\<close>

text \<open>
  Claim C6. If \<open>s\<close> is empty or has a character outside the alphabet, \<open>decodeBits\<close> fails
  with an error of the kind \<open>InvalidSymbol\<close> (the empty-input error, or the
  invalid-characters error carrying the offending characters) and returns no bytes.
\<close>

theorem decodeBits_invalid_symbol:
  assumes enc: "new_BitStreamEncoder alphabet = Inr enc"
    and bad: "s = [] \<or> (\<exists>c \<in> set s. c \<notin> set alphabet)"
  shows "decodeBits enc s =
           Inl (if s = [] then EmptyInput else InvalidCharacters (filter (\<lambda>c. c \<notin> set alphabet) s)) \<and>
         (\<exists>e. decodeBits enc s = Inl e \<and> kind_of e = InvalidSymbol) \<and>
         (\<forall>bs. decodeBits enc s \<noteq> Inr bs)"
proof (cases "s = []")
  case True
  then show ?thesis by (simp add: decodeBits_def)
next
  case False
  have f: "filter (\<lambda>c. charToIndex enc c = None) s = filter (\<lambda>c. c \<notin> set alphabet) s"
    by (simp add: charToIndex_None[OF enc])
  have "filter (\<lambda>c. c \<notin> set alphabet) s \<noteq> []" using bad False by (simp add: filter_empty_conv)
  then have "decodeBits enc s = Inl (InvalidCharacters (filter (\<lambda>c. c \<notin> set alphabet) s))"
    using False by (simp add: decodeBits_def Let_def f)
  then show ?thesis using False by simp
qed

text \<open>A 10-symbol alphabet, the string \<open>12a4\<close> and the empty string.\<close>

theorem decodeBits_invalid_symbol_witness:
  "new_BitStreamEncoder ''0123456789'' = Inr (encoder_for ''0123456789'') \<and>
   decodeBits (encoder_for ''0123456789'') ''12a4'' = Inl (InvalidCharacters ''a'') \<and>
   decodeBits (encoder_for ''0123456789'') [] = Inl EmptyInput"
proof -
  have enc: "new_BitStreamEncoder ''0123456789'' = Inr (encoder_for ''0123456789'')"
    by (rule encoder_for) simp_all
  have b: "''12a4'' = [] \<or> (\<exists>c \<in> set ''12a4''. c \<notin> set ''0123456789'')" by simp
  show ?thesis
    using decodeBits_invalid_symbol[OF enc b] decodeBits_invalid_symbol[OF enc, of "[]"] enc
    by simp
qed

subsection \<open>C9: no decoded payload is empty\<close>

text \<open>
  Claim C9. Every successful \<open>decodeBits\<close> returns at least one byte: a length prefix of 0
  is an error.
\<close>

theorem decodeBits_never_empty:
  "decodeBits enc s = Inr bs \<Longrightarrow> 1 \<le> length bs"
  by (auto simp: decodeBits_def Let_def pad4_eq length_pad_to_4 min_absorb2 split: if_splits sum.splits)

text \<open>A successful decode: the string that the hex encoder returns for \<open>2^24\<close> bytes \<open>0xFF\<close>.\<close>

theorem decodeBits_never_empty_witness:
  "decodeBits (encoder_for ''0123456789abcdef'')
      (encoded_by (encoder_for ''0123456789abcdef'') (replicate (2 ^ 24) 0xFF))
     = Inr (replicate (2 ^ 24) 0xFF) \<and>
   1 \<le> length (replicate (2 ^ 24) (0xFF :: byte))"
proof -
  have l: "2 ^ 24 \<le> length (replicate (2 ^ 24) (0xFF::byte))"
     "length (replicate (2 ^ 24) (0xFF::byte)) < 2 ^ 32"
    by (simp_all only: length_replicate) simp_all
  obtain s where e: "encodeBits (encoder_for ''0123456789abcdef'') (replicate (2 ^ 24) 0xFF) = Some (Inr s)"
    and s: "decodeBits (encoder_for ''0123456789abcdef'') s = Inr (replicate (2 ^ 24) 0xFF)"
    using roundtrip_large[OF hex_encoder _ l] by auto
  have "encoded_by (encoder_for ''0123456789abcdef'') (replicate (2 ^ 24) 0xFF) = s"
    by (simp only: encoded_by_def e option.case sum.case)
  then show ?thesis using decodeBits_never_empty[OF s] s by simp
qed

section \<open>Lemmas about the search\<close>

subsection \<open>Trials return\<close>

lemma encodeBits_total:
  assumes enc: "new_BitStreamEncoder s = Inr enc" and R: "2 \<le> length s"
  shows "\<exists>str. encodeBits enc bytes = Some (Inr str)"
proof (cases "bytes_to_value (setUint32 (length bytes) @ bytes) = 0")
  case True
  then show ?thesis by (simp add: encodeBits_def Let_def)
next
  case False
  then show ?thesis using encodeBits_nonzero[OF enc R, of bytes] by auto
qed

lemma tryCompressionLevel_total:
  assumes enc: "new_BitStreamEncoder s = Inr enc" and R: "2 \<le> length s"
  shows "\<exists>r. tryCompressionLevel cfg enc img ps = Some r"
proof (cases "tryCompression img (format ps) (quality ps)
             (Some (Math_round (of_nat (width img) * scale ps)))
             (Some (Math_round (of_nat (height img) * scale ps)))")
  case (Inl e)
  then show ?thesis by (simp add: tryCompressionLevel_def)
next
  case (Inr bs)
  obtain buffer sz where bs: "bs = (buffer, sz)" by (cases bs)
  obtain str where "encodeBits enc buffer = Some (Inr str)"
    using encodeBits_total[OF enc R] by blast
  then show ?thesis using Inr bs by (simp add: tryCompressionLevel_def Let_def)
qed

lemma binarySearch_loop_exit:
  "\<not> iterations st < maxIterations \<Longrightarrow> binarySearch_loop cfg enc img fmt st = Some st"
  by (subst binarySearch_loop.simps) simp

lemma binarySearch_loop_round:
  assumes "iterations st < maxIterations"
    and "tryCompressionLevel cfg enc img \<lparr> format = fmt, quality = (minQuality st + maxQuality st) / 2,
           scale = (minScale st + maxScale st) / 2 \<rparr> = Some result"
    and "st1 = search_update st ((minQuality st + maxQuality st) / 2) ((minScale st + maxScale st) / 2) result"
  shows "binarySearch_loop cfg enc img fmt st =
     (if \<bar>maxQuality st1 - minQuality st1\<bar> < 0.05 \<and> \<bar>maxScale st1 - minScale st1\<bar> < 0.05
      then Some st1
      else binarySearch_loop cfg enc img fmt (st1 \<lparr> iterations := iterations st1 + 1 \<rparr>))"
  by (subst binarySearch_loop.simps) (simp add: assms Let_def)

lemma binarySearch_loop_None:
  assumes "iterations st < maxIterations"
    and "tryCompressionLevel cfg enc img \<lparr> format = fmt, quality = (minQuality st + maxQuality st) / 2,
           scale = (minScale st + maxScale st) / 2 \<rparr> = None"
  shows "binarySearch_loop cfg enc img fmt st = None"
  by (subst binarySearch_loop.simps) (simp add: assms Let_def)

lemma iterations_search_update [simp]: "iterations (search_update st q s r) = iterations st"
  by (simp add: search_update_def Let_def)

lemma binarySearch_loop_rule:
  assumes run: "binarySearch_loop cfg enc img fmt st = Some st'"
    and init: "I st"
    and step: "\<And>st result. I st \<Longrightarrow> iterations st < maxIterations \<Longrightarrow>
       tryCompressionLevel cfg enc img \<lparr> format = fmt, quality = (minQuality st + maxQuality st) / 2,
           scale = (minScale st + maxScale st) / 2 \<rparr> = Some result \<Longrightarrow>
       J (search_update st ((minQuality st + maxQuality st) / 2) ((minScale st + maxScale st) / 2) result)"
    and iter: "\<And>st. J st \<Longrightarrow> I (st \<lparr> iterations := iterations st + 1 \<rparr>)"
  shows "J st' \<or> (I st' \<and> \<not> iterations st' < maxIterations)"
  using run init
proof (induction "maxIterations - iterations st" arbitrary: st rule: less_induct)
  case less
  show ?case
  proof (cases "iterations st < maxIterations")
    case False
    then have "st' = st" using less.prems(1) by (simp add: binarySearch_loop_exit)
    then show ?thesis using less.prems(2) False by simp
  next
    case True
    let ?p = "\<lparr> format = fmt, quality = (minQuality st + maxQuality st) / 2,
           scale = (minScale st + maxScale st) / 2 \<rparr>"
    obtain result where res: "tryCompressionLevel cfg enc img ?p = Some result"
      using less.prems(1) binarySearch_loop_None[OF True, of cfg enc img fmt]
      by (cases "tryCompressionLevel cfg enc img ?p") auto
    define st1 where "st1 = search_update st ((minQuality st + maxQuality st) / 2) ((minScale st + maxScale st) / 2) result"
    note unf = binarySearch_loop_round[OF True res st1_def]
    have J1: "J st1" unfolding st1_def by (rule step[OF less.prems(2) True res])
    show ?thesis
    proof (cases "\<bar>maxQuality st1 - minQuality st1\<bar> < 0.05 \<and> \<bar>maxScale st1 - minScale st1\<bar> < 0.05")
      case brk: True
      have "binarySearch_loop cfg enc img fmt st = Some st1"
        unfolding unf using brk by (simp only: if_True simp_thms)
      then show ?thesis using less.prems(1) J1 by simp
    next
      case cont: False
      define st2 where "st2 = st1 \<lparr> iterations := iterations st1 + 1 \<rparr>"
      have "binarySearch_loop cfg enc img fmt st = binarySearch_loop cfg enc img fmt st2"
        unfolding unf st2_def using cont by (simp only: if_False)
      then have r: "binarySearch_loop cfg enc img fmt st2 = Some st'"
        using less.prems(1) by simp
      have I2: "I st2" unfolding st2_def by (rule iter[OF J1])
      show ?thesis
        by (rule less.hyps[OF _ r I2]) (use True in \<open>simp add: st2_def st1_def\<close>)
    qed
  qed
qed

lemma binarySearch_loop_total:
  assumes tot: "\<And>ps. \<exists>r. tryCompressionLevel cfg enc img ps = Some r"
  shows "\<exists>st'. binarySearch_loop cfg enc img fmt st = Some st'"
proof (induction "maxIterations - iterations st" arbitrary: st rule: less_induct)
  case less
  show ?case
  proof (cases "iterations st < maxIterations")
    case False
    then show ?thesis by (simp add: binarySearch_loop_exit)
  next
    case True
    let ?p = "\<lparr> format = fmt, quality = (minQuality st + maxQuality st) / 2,
           scale = (minScale st + maxScale st) / 2 \<rparr>"
    from tot obtain result where res: "tryCompressionLevel cfg enc img ?p = Some result"
      by blast
    define st1 where "st1 = search_update st ((minQuality st + maxQuality st) / 2) ((minScale st + maxScale st) / 2) result"
    note unf = binarySearch_loop_round[OF True res st1_def]
    show ?thesis
    proof (cases "\<bar>maxQuality st1 - minQuality st1\<bar> < 0.05 \<and> \<bar>maxScale st1 - minScale st1\<bar> < 0.05")
      case brk: True
      have "binarySearch_loop cfg enc img fmt st = Some st1"
        unfolding unf using brk by (simp only: if_True simp_thms)
      then show ?thesis by simp
    next
      case cont: False
      define st2 where "st2 = st1 \<lparr> iterations := iterations st1 + 1 \<rparr>"
      have "binarySearch_loop cfg enc img fmt st = binarySearch_loop cfg enc img fmt st2"
        unfolding unf st2_def using cont by (simp only: if_False)
      moreover have "\<exists>st'. binarySearch_loop cfg enc img fmt st2 = Some st'"
        by (rule less.hyps) (use True in \<open>simp add: st2_def st1_def\<close>)
      ultimately show ?thesis by simp
    qed
  qed
qed

lemma history_length:
  assumes run: "binarySearch_loop cfg enc img fmt st = Some st'"
    and h: "length (history st) = iterations st" "iterations st \<le> maxIterations"
  shows "length (history st') \<le> maxIterations"
proof -
  have "(length (history st') = iterations st' + 1 \<and> iterations st' < maxIterations)
      \<or> ((length (history st') = iterations st' \<and> iterations st' \<le> maxIterations)
          \<and> \<not> iterations st' < maxIterations)"
    by (rule binarySearch_loop_rule[OF run,
        where I = "\<lambda>st. length (history st) = iterations st \<and> iterations st \<le> maxIterations"
          and J = "\<lambda>st. length (history st) = iterations st + 1 \<and> iterations st < maxIterations"])
       (use h in \<open>auto simp: search_update_def Let_def\<close>)
  then show ?thesis by auto
qed

subsection \<open>The bounds across rounds\<close>

lemma search_init_ordered:
  "minQuality (search_init cfg L) \<le> maxQuality (search_init cfg L) \<and>
   minScale (search_init cfg L) \<le> maxScale (search_init cfg L) \<and>
   history (search_init cfg L) = [] \<and> iterations (search_init cfg L) = 0 \<and>
   bestResult (search_init cfg L) = None"
  by (simp add: search_init_def Let_def)

lemma nested_refl: "lo_quality a \<le> hi_quality a \<Longrightarrow> lo_scale a \<le> hi_scale a \<Longrightarrow> nested a a"
  by (simp add: nested_def)

lemma nested_trans: "nested a b \<Longrightarrow> nested b c \<Longrightarrow> nested a c"
  by (auto simp: nested_def)

lemma tightens_nested:
  "lo_quality a \<le> hi_quality a \<Longrightarrow> lo_scale a \<le> hi_scale a \<Longrightarrow> tightens a b \<Longrightarrow> nested a b"
  by (auto simp: nested_def tightens_def Let_def field_simps split: if_splits)

lemma search_chain:
  assumes run: "binarySearch_loop cfg enc img fmt st = Some st'"
    and o: "minQuality st \<le> maxQuality st" "minScale st \<le> maxScale st"
    and h: "history st = []"
  shows "successively tightens (bounds_of False st # history st')
       \<and> sorted_wrt nested (bounds_of False st # history st')"
proof -
  define B0 where "B0 = bounds_of False st"
  define Inv where "Inv = (\<lambda>t::search_state. let H = B0 # history t in
       successively tightens H \<and> sorted_wrt nested H \<and>
       lo_quality (last H) = minQuality t \<and> hi_quality (last H) = maxQuality t \<and>
       lo_scale (last H) = minScale t \<and> hi_scale (last H) = maxScale t \<and>
       minQuality t \<le> maxQuality t \<and> minScale t \<le> maxScale t)"
  have "Inv st' \<or> (Inv st' \<and> \<not> iterations st' < maxIterations)"
  proof (rule binarySearch_loop_rule[OF run, where I = Inv and J = Inv])
    show "Inv st" using o h by (simp add: Inv_def B0_def bounds_of_def Let_def)
  next
    fix t assume "Inv t"
    moreover have "Inv (t \<lparr> iterations := iterations t + 1 \<rparr>) = Inv t"
      unfolding Inv_def by simp
    ultimately show "Inv (t \<lparr> iterations := iterations t + 1 \<rparr>)" by simp
  next
    fix t result
    assume I: "Inv t"
    define H where "H = B0 # history t"
    define q where "q = (minQuality t + maxQuality t) / 2"
    define s where "s = (minScale t + maxScale t) / 2"
    define t' where "t' = search_update t q s result"
    define b where "b = bounds_of (success result) (if success result
                 then t \<lparr> bestResult := Some result, minQuality := q, minScale := s \<rparr>
                 else t \<lparr> maxQuality := q, maxScale := s \<rparr>)"
    have H': "B0 # history t' = H @ [b]"
      by (simp add: t'_def search_update_def Let_def H_def b_def)
    from I have suc: "successively tightens H" and srt: "sorted_wrt nested H"
      and l: "lo_quality (last H) = minQuality t" "hi_quality (last H) = maxQuality t"
             "lo_scale (last H) = minScale t" "hi_scale (last H) = maxScale t"
      and ord: "minQuality t \<le> maxQuality t" "minScale t \<le> maxScale t"
      by (simp_all add: Inv_def Let_def H_def)
    have tb: "tightens (last H) b"
      using l by (simp add: tightens_def Let_def b_def bounds_of_def q_def s_def)
    have nb: "nested (last H) b"
      using tb l ord by (intro tightens_nested) simp_all
    have Hne: "H \<noteq> []" by (simp add: H_def)
    have all: "nested y b" if "y \<in> set H" for y
    proof (cases "y = last H")
      case True then show ?thesis using nb by simp
    next
      case False
      then have "y \<in> set (butlast H)" using that Hne
        by (metis append_butlast_last_id insert_iff list.simps(15) rotate1.simps(2) set_rotate1)
      then have "nested y (last H)" using srt Hne
        by (metis append_butlast_last_id sorted_wrt_append list.set_intros(1))
      then show ?thesis using nb nested_trans by blast
    qed
    have s1: "successively tightens (H @ [b])"
      using suc tb Hne by (simp add: successively_append_iff)
    have s2: "sorted_wrt nested (H @ [b])"
      using srt all by (simp add: sorted_wrt_append)
    have ordb: "lo_quality b \<le> hi_quality b" "lo_scale b \<le> hi_scale b"
      using nb by (simp_all add: nested_def)
    have lb: "lo_quality b = minQuality t'" "hi_quality b = maxQuality t'"
             "lo_scale b = minScale t'" "hi_scale b = maxScale t'"
      by (simp_all add: b_def t'_def search_update_def Let_def bounds_of_def)
    show "Inv (search_update t ((minQuality t + maxQuality t) / 2) ((minScale t + maxScale t) / 2) result)"
      unfolding q_def[symmetric] s_def[symmetric] t'_def[symmetric]
      unfolding Inv_def Let_def H' using s1 s2 lb ordb by simp
  qed
  then show ?thesis by (auto simp: Inv_def Let_def B0_def)
qed

subsection \<open>The rounds of the search\<close>

lemma best_needs_fit:
  assumes run: "binarySearch_loop cfg enc img fmt st = Some st'"
    and init: "bestResult st = None"
  shows "bestResult st' \<noteq> None \<longrightarrow> (\<exists>r \<in> set (history st'). fits r)"
proof -
  let ?I = "\<lambda>t::search_state. bestResult t \<noteq> None \<longrightarrow> (\<exists>r \<in> set (history t). fits r)"
  have "?I st' \<or> (?I st' \<and> \<not> iterations st' < maxIterations)"
    by (rule binarySearch_loop_rule[OF run, where I = ?I and J = ?I])
       (auto simp: init search_update_def bounds_of_def Let_def)
  then show ?thesis by blast
qed

lemma history_all_unfit:
  assumes run: "binarySearch_loop cfg enc img fmt st = Some st'"
    and init: "history st = []"
    and unfit: "\<And>ps r. tryCompressionLevel cfg enc img ps = Some r \<Longrightarrow> \<not> success r"
  shows "\<forall>r \<in> set (history st'). \<not> fits r"
proof -
  let ?I = "\<lambda>t::search_state. \<forall>r \<in> set (history t). \<not> fits r"
  have "?I st' \<or> (?I st' \<and> \<not> iterations st' < maxIterations)"
    by (rule binarySearch_loop_rule[OF run, where I = ?I and J = ?I])
       (auto simp: init search_update_def bounds_of_def Let_def dest: unfit)
  then show ?thesis by blast
qed

subsection \<open>The hill-climb\<close>

lemma improve_loop_stuck:
  assumes q: "tryCompressionLevel cfg enc img (wp\<lparr>quality := min 0.95 (quality wp + step_quality stp)\<rparr>) = Some rq"
    and s: "tryCompressionLevel cfg enc img (wp\<lparr>scale := min 1.0 (scale wp + step_scale stp)\<rparr>) = Some rs"
    and ok: "success (if encodedLength rq < encodedLength rs then rq else rs)"
    and same: "params (if encodedLength rq < encodedLength rs then rq else rs) = wp"
  shows "improve_loop cfg enc img stp (best, wp) = None"
proof -
  define better where "better = (if encodedLength rq < encodedLength rs then rq else rs)"
  have never: "c = cfg \<and> e = enc \<and> i = img \<and> st = stp \<and> snd v = wp \<longrightarrow> False"
    if run: "improve_loop c e i st v = Some y" for c e i st v y
  proof (rule improve_loop.raw_induct[OF _ run,
        where P = "\<lambda>c e i st v y. c = cfg \<and> e = enc \<and> i = img \<and> st = stp \<and> snd v = wp \<longrightarrow> False"],
      goal_cases)
    case (1 f c e i st v y)
    show ?case
    proof (intro impI, elim conjE)
      assume eqs: "c = cfg" "e = enc" "i = img" "st = stp" "snd v = wp"
      have "f cfg enc img stp (better, params better) = Some y"
        using 1(2) ok unfolding eqs q s
        by (auto simp: Let_def better_def split: if_splits)
      then show False using 1(1)[of cfg enc img stp "(better, params better)" y] same
        by (simp add: better_def)
    qed
  qed
  show ?thesis
  proof (cases "improve_loop cfg enc img stp (best, wp)")
    case None then show ?thesis .
  next
    case (Some y)
    then show ?thesis using never[of cfg enc img stp "(best, wp)" y] by simp
  qed
qed

lemma result_lengths:
  "encodedLength (fit_result ps) = enat 3" "params (unfit_result ps) = ps"
  by (simp_all add: fit_result_def unfit_result_def)

lemma optimizeCompression_no_result:
  "optimizeCompression cfg enc img fmt wp \<noteq> Some (Some r)"
  by (simp add: optimizeCompression_def split: option.splits)

lemma heuristic_success_only_phase1:
  assumes "compressImageHeuristic cfg enc img fmt = Some (Inr d)"
  shows "\<exists>r0. tryCompressionLevel cfg enc img \<lparr>format = fmt, quality = 0.95, scale = 1.0\<rparr> = Some r0
            \<and> success r0 \<and> d = data r0"
  using assms optimizeCompression_no_result[of cfg enc img fmt]
  by (auto simp: compressImageHeuristic_def split: option.splits if_splits)

text \<open>The working point of the hill-climb stays feasible.\<close>

lemma improve_loop_keeps_feasible:
  assumes run: "improve_loop cfg enc img stp vars = Some vars'"
    and ok: "success (fst vars)" "params (fst vars) = snd vars"
  shows "success (fst vars') \<and> params (fst vars') = snd vars'"
proof -
  have "success (fst v) \<and> params (fst v) = snd v \<longrightarrow> success (fst y) \<and> params (fst y) = snd y"
    if r: "improve_loop c e i st v = Some y" for c e i st v y
  proof (rule improve_loop.raw_induct[OF _ r,
        where P = "\<lambda>c e i st v y. success (fst v) \<and> params (fst v) = snd v
                      \<longrightarrow> success (fst y) \<and> params (fst y) = snd y"],
      goal_cases)
    case (1 f c e i st v y)
    show ?case
    proof
      assume v: "success (fst v) \<and> params (fst v) = snd v"
      from 1(2) obtain rq rs where
        body: "(if success rq \<or> success rs
                then (let better = (if encodedLength rq < encodedLength rs then rq else rs)
                      in if success better then f c e i st (better, params better) else Some v)
                else Some v) = Some y"
        by (auto split: option.splits)
      define better where "better = (if encodedLength rq < encodedLength rs then rq else rs)"
      show "success (fst y) \<and> params (fst y) = snd y"
      proof (cases "(success rq \<or> success rs) \<and> success better")
        case True
        then have "f c e i st (better, params better) = Some y"
          using body by (simp add: Let_def better_def)
        then show ?thesis using 1(1)[of c e i st "(better, params better)" y] True by simp
      next
        case False
        then have "y = v" using body by (auto simp: Let_def better_def split: if_splits)
        then show ?thesis using v by simp
      qed
    qed
  qed
  then show ?thesis using run ok by blast
qed

lemma for_steps_keeps_feasible:
  "for_steps cfg enc img stps vars = Some vars' \<Longrightarrow>
   success (fst vars) \<Longrightarrow> params (fst vars) = snd vars \<Longrightarrow>
   success (fst vars') \<and> params (fst vars') = snd vars'"
proof (induction stps arbitrary: vars)
  case Nil
  then show ?case by simp
next
  case (Cons stp stps)
  from Cons.prems(1) obtain v1 where a: "improve_loop cfg enc img stp vars = Some v1"
    and b: "for_steps cfg enc img stps v1 = Some vars'"
    by (auto split: option.splits)
  have "success (fst v1) \<and> params (fst v1) = snd v1"
    using improve_loop_keeps_feasible[OF a Cons.prems(2,3)] .
  then show ?case using Cons.IH[OF b] by simp
qed

subsection \<open>The format trials\<close>

lemma fold_try_format_rejected:
  "\<forall>fmt \<in> set fs. toBlob img None None fmt 0.95 = None \<Longrightarrow> fold (try_format img) fs vars = vars"
  by (induction fs arbitrary: vars) (simp_all add: try_format_def tryCompression_def)

lemma fold_try_format_mem:
  "fst (fold (try_format img) fs vars) = fst vars \<or> fst (fold (try_format img) fs vars) \<in> Some ` set fs"
proof (induction fs arbitrary: vars)
  case Nil
  show ?case by simp
next
  case (Cons f fs)
  have "fst (try_format img f vars) = fst vars \<or> fst (try_format img f vars) = Some f"
    by (auto simp: try_format_def split: sum.splits prod.splits)
  then show ?case using Cons[of "try_format img f vars"] by auto
qed

subsection \<open>Trials on the example inputs\<close>

lemma floor_rat_numeral: "\<lfloor>(numeral a :: rat) / numeral b\<rfloor> = numeral a div numeral b"
  using floor_divide_of_int_eq [of "numeral a" "numeral b", where ?'a = rat] by simp

lemma encodeBits_small:
  assumes enc: "new_BitStreamEncoder ''0123456789abcdef'' = Inr enc"
  shows "encodeBits enc [1] = Some (Inr ''101'')" "encodeBits enc [1, 1] = Some (Inr ''20101'')"
proof -
  note cf = constructor_facts[OF enc]
  have r: "RADIX enc = 16" by (simp add: cf(2))
  have v1: "bytes_to_value (setUint32 (length [1::byte]) @ [1]) = 257"
    by (simp add: setUint32_def bytes_to_value_def)
  have v2: "bytes_to_value (setUint32 (length [1, 1::byte]) @ [1, 1]) = 131329"
    by (simp add: setUint32_def bytes_to_value_def)
  have l1: "encode_loop enc 257 [] = Some (Inr [''1'', ''0'', ''1''])"
    by (simp add: encode_loop.simps cf(1) r char_at_def)
  have l2: "encode_loop enc 131329 [] = Some (Inr [''2'', ''0'', ''1'', ''0'', ''1''])"
    by (simp add: encode_loop.simps cf(1) r char_at_def)
  show "encodeBits enc [1] = Some (Inr ''101'')"
    unfolding encodeBits_def Let_def v1 l1 by simp
  show "encodeBits enc [1, 1] = Some (Inr ''20101'')"
    unfolding encodeBits_def Let_def v2 l2 by simp
qed

lemma example_processor: "new_ImageProcessor example_config = Inr example_encoder"
  using hex_encoder by (simp add: new_ImageProcessor_def example_config_def example_encoder_def)

lemma try_stub:
  assumes enc: "new_ImageProcessor example_config = Inr enc"
  shows "tryCompressionLevel example_config enc (stub_image small) ps =
     Some (if small (Math_round (100 * scale ps)) (quality ps) then fit_result ps else unfit_result ps)"
proof -
  have e: "new_BitStreamEncoder ''0123456789abcdef'' = Inr enc"
    using enc by (simp add: new_ImageProcessor_def example_config_def)
  show ?thesis
    by (simp add: tryCompressionLevel_def tryCompression_def stub_image_def encodeBits_small[OF e]
        example_config_def fit_result_def unfit_result_def Let_def eval_nat_numeral)
qed

lemma try_rejected:
  "tryCompressionLevel cfg enc rejected_image ps = Some (attempt_failed ps)"
  by (simp add: tryCompressionLevel_def tryCompression_def rejected_image_def)

lemma search_init_5: "search_init example_config (enat 5) =
  \<lparr>minQuality = 1 / 10, maxQuality = 19 / 20, minScale = 1 / 10,
    maxScale = 1, bestResult = None, iterations = 0, history = []\<rparr>"
  by (simp add: search_init_def example_config_def js_div_def js_gt_def Let_def)

lemmas search_eval = binarySearch_loop.simps maxIterations_def search_update_def
      bounds_of_def Math_round_def fit_result_def unfit_result_def Let_def

lemma phase1_stub:
  assumes enc: "new_ImageProcessor example_config = Inr enc"
    and big: "\<not> small 100 (95 / 100)"
  shows "tryCompressionLevel example_config enc (stub_image small)
       \<lparr>format = fmt, quality = 0.95, scale = 1.0\<rparr>
     = Some (unfit_result \<lparr>format = fmt, quality = 0.95, scale = 1.0\<rparr>)"
  using big by (simp add: try_stub[OF enc] Math_round_def floor_rat_numeral)

lemma phase2_stub_all_fit:
  assumes enc: "new_ImageProcessor example_config = Inr enc"
    and small: "\<And>w q. w < 100 \<and> q < 0.95 \<Longrightarrow> small w q"
  shows "binarySearchCompression example_config enc (stub_image small) ''image/jpeg'' (enat 5)
     = Some (Some (fit_result \<lparr>format = ''image/jpeg'', quality = 591 / 640, scale = 311 / 320\<rparr>))"
  unfolding binarySearchCompression_def search_init_5
  by (simp add: search_eval try_stub[OF enc] small)

lemma results_simps:
  "success (fit_result ps)" "\<not> success (unfit_result ps)" "params (fit_result ps) = ps"
  "encodedLength (unfit_result ps) = enat 5"
  by (simp_all add: fit_result_def unfit_result_def)

section \<open>The claims about the search\<close>

subsection \<open>C8: the bounds of phase 2\<close>

text \<open>
  Claim C8. In every run of the binary search the bounds after each round tighten those before
  it at the evaluated midpoint (a trial that fits raises the lower bounds to it, one that does
  not lowers the upper bounds to it); so the quality and scale intervals of a later round lie
  within those of every earlier round, and a lower bound never passes an upper bound. The list
  \<open>H\<close> holds the initial bounds and the bounds after each round.
\<close>

theorem bounds_only_tighten:
  assumes run: "binarySearch_loop cfg enc img fmt (search_init cfg initialLength) = Some st"
  shows "let H = bounds_of False (search_init cfg initialLength) # history st in
     (\<forall>i. Suc i < length H \<longrightarrow> tightens (H ! i) (H ! Suc i)) \<and>
     (\<forall>i j. i < j \<and> j < length H \<longrightarrow> nested (H ! i) (H ! j)) \<and>
     (\<forall>r \<in> set H. lo_quality r \<le> hi_quality r \<and> lo_scale r \<le> hi_scale r)"
proof -
  define H where "H = bounds_of False (search_init cfg initialLength) # history st"
  note i = search_init_ordered[of cfg initialLength]
  have c: "successively tightens H" "sorted_wrt nested H"
    using search_chain[OF run] i by (simp_all add: H_def)
  have t: "\<forall>i. Suc i < length H \<longrightarrow> tightens (H ! i) (H ! Suc i)"
    using c(1) by (simp add: successively_conv_nth)
  have n: "\<forall>i j. i < j \<and> j < length H \<longrightarrow> nested (H ! i) (H ! j)"
    using c(2) by (simp add: sorted_wrt_iff_nth_less)
  have o: "lo_quality r \<le> hi_quality r \<and> lo_scale r \<le> hi_scale r" if rH: "r \<in> set H" for r
  proof -
    obtain j where j: "j < length H" "r = H ! j" using rH by (auto simp: in_set_conv_nth)
    show ?thesis
    proof (cases j)
      case 0
      then show ?thesis using j i by (simp add: H_def bounds_of_def)
    next
      case (Suc k)
      then have "nested (H ! 0) (H ! j)" using n j by simp
      then show ?thesis using j by (simp add: nested_def)
    qed
  qed
  show ?thesis unfolding Let_def H_def[symmetric] using t n o by blast
qed

text \<open>A run of five rounds, of which the first and the last fit.\<close>

theorem bounds_only_tighten_witness:
  "\<exists>st. binarySearch_loop example_config example_encoder (stub_image up_to_60) ''image/jpeg''
        (search_init example_config (enat 5)) = Some st \<and>
     map fits (history st) = [True, False, False, False, True] \<and>
     (let H = bounds_of False (search_init example_config (enat 5)) # history st in
       (\<forall>i. Suc i < length H \<longrightarrow> tightens (H ! i) (H ! Suc i)) \<and>
       (\<forall>i j. i < j \<and> j < length H \<longrightarrow> nested (H ! i) (H ! j)) \<and>
       (\<forall>r \<in> set H. lo_quality r \<le> hi_quality r \<and> lo_scale r \<le> hi_scale r))"
proof -
  note enc = example_processor
  obtain st where st: "binarySearch_loop example_config example_encoder (stub_image up_to_60)
        ''image/jpeg'' (search_init example_config (enat 5)) = Some st"
    and h: "map fits (history st) = [True, False, False, False, True]"
    unfolding search_init_5
    by (simp add: search_eval try_stub[OF enc] up_to_60_def)
  show ?thesis
    by (intro exI[of _ st] conjI st h bounds_only_tighten[OF st])
qed

subsection \<open>C5: a search that finds nothing\<close>

text \<open>
  Claim C5. With an alphabet of at least two symbols, the first trial returns; when it does
  not fit, phase 2 returns after at most 8 rounds, and if none of its rounds fitted,
  \<open>compressImageHeuristic\<close> fails with the error of kind \<open>CompressionExhausted\<close>. A trial
  that the renderer rejects is a trial that does not fit, of length \<open>Infinity\<close>: it is a
  result, not an error.
\<close>

theorem exhausted_search:
  assumes proc: "new_ImageProcessor cfg = Inr enc" and R: "2 \<le> length (CONFIG_SAFE_CHARS cfg)"
  shows "(\<exists>r0. tryCompressionLevel cfg enc img \<lparr>format = fmt, quality = 0.95, scale = 1.0\<rparr> = Some r0 \<and>
           (\<not> success r0 \<longrightarrow>
              (\<exists>st. binarySearch_loop cfg enc img fmt (search_init cfg (encodedLength r0)) = Some st \<and>
                 length (history st) \<le> 8 \<and>
                 ((\<forall>r \<in> set (history st). \<not> fits r) \<longrightarrow>
                    compressImageHeuristic cfg enc img fmt = Some (Inl UnableToCompress) \<and>
                    kind_of UnableToCompress = CompressionExhausted)))) \<and>
         (\<forall>ps e. tryCompression img (format ps) (quality ps)
                   (Some (Math_round (of_nat (width img) * scale ps)))
                   (Some (Math_round (of_nat (height img) * scale ps))) = Inl e \<longrightarrow>
            tryCompressionLevel cfg enc img ps = Some (attempt_failed ps) \<and>
            \<not> success (attempt_failed ps) \<and> encodedLength (attempt_failed ps) = \<infinity>)"
proof (intro conjI allI impI)
  have e: "new_BitStreamEncoder (CONFIG_SAFE_CHARS cfg) = Inr enc"
    using proc by (simp add: new_ImageProcessor_def)
  have tot: "\<exists>r. tryCompressionLevel cfg enc img ps = Some r" for ps
    by (rule tryCompressionLevel_total[OF e R])
  obtain r0 where r0: "tryCompressionLevel cfg enc img \<lparr>format = fmt, quality = 0.95, scale = 1.0\<rparr> = Some r0"
    using tot by blast
  obtain st where st: "binarySearch_loop cfg enc img fmt (search_init cfg (encodedLength r0)) = Some st"
    using binarySearch_loop_total[of cfg enc img fmt] tot by blast
  have len: "length (history st) \<le> 8"
    using history_length[OF st] search_init_ordered[of cfg "encodedLength r0"]
    by (simp add: maxIterations_def)
  have ex: "compressImageHeuristic cfg enc img fmt = Some (Inl UnableToCompress)"
    if f: "\<not> success r0" and n: "\<forall>r \<in> set (history st). \<not> fits r"
  proof -
    have "bestResult st = None"
      using best_needs_fit[OF st] search_init_ordered[of cfg "encodedLength r0"] n by auto
    then have "binarySearchCompression cfg enc img fmt (encodedLength r0) = Some None"
      by (simp add: binarySearchCompression_def st)
    then show ?thesis using r0 f by (simp add: compressImageHeuristic_def)
  qed
  show "\<exists>r0. tryCompressionLevel cfg enc img \<lparr>format = fmt, quality = 0.95, scale = 1.0\<rparr> = Some r0 \<and>
           (\<not> success r0 \<longrightarrow>
              (\<exists>st. binarySearch_loop cfg enc img fmt (search_init cfg (encodedLength r0)) = Some st \<and>
                 length (history st) \<le> 8 \<and>
                 ((\<forall>r \<in> set (history st). \<not> fits r) \<longrightarrow>
                    compressImageHeuristic cfg enc img fmt = Some (Inl UnableToCompress) \<and>
                    kind_of UnableToCompress = CompressionExhausted)))"
    using r0 st len ex by auto
next
  fix ps :: compression_params and e
  assume a: "tryCompression img (format ps) (quality ps)
                   (Some (Math_round (of_nat (width img) * scale ps)))
                   (Some (Math_round (of_nat (height img) * scale ps))) = Inl e"
  show "tryCompressionLevel cfg enc img ps = Some (attempt_failed ps)"
    by (simp add: tryCompressionLevel_def a)
  show "\<not> success (attempt_failed ps)" by (simp add: attempt_failed_def)
  show "encodedLength (attempt_failed ps) = \<infinity>" by (simp add: attempt_failed_def)
qed

text \<open>The image that the renderer always rejects.\<close>

theorem exhausted_search_witness:
  "\<exists>st. new_ImageProcessor example_config = Inr example_encoder \<and>
     2 \<le> length (CONFIG_SAFE_CHARS example_config) \<and>
     tryCompressionLevel example_config example_encoder rejected_image
        \<lparr>format = ''image/jpeg'', quality = 0.95, scale = 1.0\<rparr>
       = Some (attempt_failed \<lparr>format = ''image/jpeg'', quality = 0.95, scale = 1.0\<rparr>) \<and>
     binarySearch_loop example_config example_encoder rejected_image ''image/jpeg''
        (search_init example_config \<infinity>) = Some st \<and>
     length (history st) \<le> 8 \<and> (\<forall>r \<in> set (history st). \<not> fits r) \<and>
     compressImageHeuristic example_config example_encoder rejected_image ''image/jpeg''
       = Some (Inl UnableToCompress)"
proof -
  define enc where "enc = example_encoder"
  have enc: "new_ImageProcessor example_config = Inr enc"
    unfolding enc_def by (rule example_processor)
  have R: "2 \<le> length (CONFIG_SAFE_CHARS example_config)" by (simp add: example_config_def)
  let ?p0 = "\<lparr>format = ''image/jpeg'', quality = 0.95, scale = 1.0\<rparr>"
  have t: "tryCompressionLevel example_config enc rejected_image ps = Some (attempt_failed ps)" for ps
    by (rule try_rejected)
  have f: "\<not> success (attempt_failed ?p0)" "encodedLength (attempt_failed ?p0) = \<infinity>"
    by (simp_all add: attempt_failed_def)
  from exhausted_search[OF enc R, of rejected_image "''image/jpeg''"]
  obtain r0 where r0: "tryCompressionLevel example_config enc rejected_image ?p0 = Some r0"
    and imp: "\<not> success r0 \<longrightarrow>
       (\<exists>st. binarySearch_loop example_config enc rejected_image ''image/jpeg''
               (search_init example_config (encodedLength r0)) = Some st \<and>
             length (history st) \<le> 8 \<and>
             ((\<forall>r \<in> set (history st). \<not> fits r) \<longrightarrow>
                compressImageHeuristic example_config enc rejected_image ''image/jpeg''
                  = Some (Inl UnableToCompress) \<and>
                kind_of UnableToCompress = CompressionExhausted))"
    by blast
  have r0_eq: "r0 = attempt_failed ?p0" using r0 t[of ?p0] by simp
  from imp f obtain st where st: "binarySearch_loop example_config enc rejected_image ''image/jpeg''
        (search_init example_config \<infinity>) = Some st" and len: "length (history st) \<le> 8"
    and ex: "(\<forall>r \<in> set (history st). \<not> fits r) \<longrightarrow>
        compressImageHeuristic example_config enc rejected_image ''image/jpeg'' = Some (Inl UnableToCompress)"
    unfolding r0_eq by auto
  have n: "\<forall>r \<in> set (history st). \<not> fits r"
    by (rule history_all_unfit[OF st]) (auto simp: search_init_ordered t attempt_failed_def)
  show ?thesis using enc R t st len n ex unfolding enc_def by blast
qed

subsection \<open>C10: the format\<close>

text \<open>
  Claim C10. \<open>detectOptimalFormat\<close> always returns a format: the type of the file or one of
  the configured formats; and when the trial render fails for every candidate format, it
  returns the type of the file.
\<close>

theorem detectOptimalFormat_returns:
  "detectOptimalFormat cfg img file_type \<in> insert file_type (set (SUPPORTED_INPUT_FORMATS cfg)) \<and>
   ((\<forall>fmt \<in> set (SUPPORTED_INPUT_FORMATS cfg).
       fmt \<noteq> ''image/svg+xml'' \<and> fmt \<noteq> ''image/gif'' \<longrightarrow> toBlob img None None fmt 0.95 = None)
     \<longrightarrow> detectOptimalFormat cfg img file_type = file_type)"
proof
  define fs where "fs = filter (\<lambda>fmt. fmt \<noteq> ''image/svg+xml'' \<and> fmt \<noteq> ''image/gif'') (SUPPORTED_INPUT_FORMATS cfg)"
  have d: "detectOptimalFormat cfg img file_type =
      (case fst (fold (try_format img) fs (None, \<infinity>)) of None \<Rightarrow> file_type
       | Some bestFormat \<Rightarrow> if bestFormat = [] then file_type else bestFormat)"
    by (simp add: detectOptimalFormat_def fs_def Let_def)
  have "fst (fold (try_format img) fs (None, \<infinity>)) = None
      \<or> fst (fold (try_format img) fs (None, \<infinity>)) \<in> Some ` set fs"
    using fold_try_format_mem[of img fs "(None, \<infinity>)"] by simp
  then show "detectOptimalFormat cfg img file_type \<in> insert file_type (set (SUPPORTED_INPUT_FORMATS cfg))"
    unfolding d by (auto simp: fs_def)
  show "(\<forall>fmt \<in> set (SUPPORTED_INPUT_FORMATS cfg).
       fmt \<noteq> ''image/svg+xml'' \<and> fmt \<noteq> ''image/gif'' \<longrightarrow> toBlob img None None fmt 0.95 = None)
     \<longrightarrow> detectOptimalFormat cfg img file_type = file_type"
  proof
    assume "\<forall>fmt \<in> set (SUPPORTED_INPUT_FORMATS cfg).
       fmt \<noteq> ''image/svg+xml'' \<and> fmt \<noteq> ''image/gif'' \<longrightarrow> toBlob img None None fmt 0.95 = None"
    then have "\<forall>fmt \<in> set fs. toBlob img None None fmt 0.95 = None" by (simp add: fs_def)
    then have "fold (try_format img) fs (None, \<infinity>) = (None, \<infinity>)"
      by (rule fold_try_format_rejected)
    then show "detectOptimalFormat cfg img file_type = file_type" unfolding d by simp
  qed
qed

text \<open>A stub image renders nothing on a canvas without dimensions, for every format.\<close>

theorem detectOptimalFormat_returns_witness:
  "toBlob (stub_image below_full_size) None None ''image/jpeg'' 0.95 = None \<and>
   detectOptimalFormat example_config (stub_image below_full_size) ''image/bmp'' = ''image/bmp''"
proof -
  have a: "\<forall>fmt \<in> set (SUPPORTED_INPUT_FORMATS example_config).
       fmt \<noteq> ''image/svg+xml'' \<and> fmt \<noteq> ''image/gif'' \<longrightarrow>
       toBlob (stub_image below_full_size) None None fmt 0.95 = None"
    by (simp add: stub_image_def)
  have b: "toBlob (stub_image below_full_size) None None ''image/jpeg'' 0.95 = None"
    by (simp add: stub_image_def)
  show ?thesis
    using detectOptimalFormat_returns[of example_config "stub_image below_full_size" "''image/bmp''"] a b
    by blast
qed

subsection \<open>C2: the result of the hill-climb\<close>

text \<open>
  Claim C2 says that \<open>compressImageHeuristic\<close> returns a result that fits whenever phase 2
  found a feasible point. Here phase 1 does not fit, phase 2 ends with a feasible point, the
  hill-climb ends, and \<open>compressImageHeuristic\<close> throws a \<open>TypeError\<close>:
  \<open>optimizeCompression\<close> returns nothing.
\<close>

theorem hill_climb_result_lost:
  "new_ImageProcessor example_config = Inr example_encoder \<and>
   tryCompressionLevel example_config example_encoder (stub_image below_both_caps)
       \<lparr>format = ''image/jpeg'', quality = 0.95, scale = 1.0\<rparr>
     = Some (unfit_result \<lparr>format = ''image/jpeg'', quality = 0.95, scale = 1.0\<rparr>) \<and>
   binarySearchCompression example_config example_encoder (stub_image below_both_caps) ''image/jpeg''
       (enat 5)
     = Some (Some (fit_result \<lparr>format = ''image/jpeg'', quality = 591 / 640, scale = 311 / 320\<rparr>)) \<and>
   optimizeCompression example_config example_encoder (stub_image below_both_caps) ''image/jpeg''
       \<lparr>format = ''image/jpeg'', quality = 591 / 640, scale = 311 / 320\<rparr> = Some None \<and>
   compressImageHeuristic example_config example_encoder (stub_image below_both_caps) ''image/jpeg''
     = Some (Inl TypeError)"
proof -
  note enc = example_processor
  let ?img = "stub_image below_both_caps"
  let ?p0 = "\<lparr>format = ''image/jpeg'', quality = 0.95, scale = 1.0\<rparr>"
  let ?wp = "\<lparr>format = ''image/jpeg'', quality = 591 / 640, scale = 311 / 320\<rparr>"
  have p1: "tryCompressionLevel example_config example_encoder ?img ?p0 = Some (unfit_result ?p0)"
    by (rule phase1_stub[OF enc]) (simp add: below_both_caps_def)
  have p2: "binarySearchCompression example_config example_encoder ?img ''image/jpeg'' (enat 5)
      = Some (Some (fit_result ?wp))"
    by (rule phase2_stub_all_fit[OF enc]) (simp add: below_both_caps_def)
  have p3: "optimizeCompression example_config example_encoder ?img ''image/jpeg'' ?wp = Some None"
    by (simp add: optimizeCompression_def optimizationSteps_def improve_loop.simps try_stub[OF enc]
        Math_round_def fit_result_def unfit_result_def below_both_caps_def)
  have "compressImageHeuristic example_config example_encoder ?img ''image/jpeg'' = Some (Inl TypeError)"
    by (simp only: compressImageHeuristic_def p1 option.case results_simps if_False if_True p2 p3)
  then show ?thesis using enc p1 p2 p3 by (intro conjI)
qed

subsection \<open>C3: the hill-climb at the quality cap\<close>

text \<open>
  Claim C3 says that \<open>compressImageHeuristic\<close> always terminates. Here phase 1 does not fit
  and phase 2 ends after 5 rounds with a feasible point; the hill-climb raises the quality to the cap 0.95 at a
  scale that fits, and from then on its quality trial is the working point itself, which
  fits: \<open>improved\<close> is set in every iteration and \<open>compressImageHeuristic\<close> does not return.
\<close>

theorem hill_climb_diverges:
  "new_ImageProcessor example_config = Inr example_encoder \<and>
   tryCompressionLevel example_config example_encoder (stub_image below_full_size)
       \<lparr>format = ''image/jpeg'', quality = 0.95, scale = 1.0\<rparr>
     = Some (unfit_result \<lparr>format = ''image/jpeg'', quality = 0.95, scale = 1.0\<rparr>) \<and>
   (\<exists>st. binarySearch_loop example_config example_encoder (stub_image below_full_size) ''image/jpeg''
           (search_init example_config (enat 5)) = Some st \<and> length (history st) = 5) \<and>
   binarySearchCompression example_config example_encoder (stub_image below_full_size) ''image/jpeg''
       (enat 5)
     = Some (Some (fit_result \<lparr>format = ''image/jpeg'', quality = 591 / 640, scale = 311 / 320\<rparr>)) \<and>
   optimizeCompression example_config example_encoder (stub_image below_full_size) ''image/jpeg''
       \<lparr>format = ''image/jpeg'', quality = 591 / 640, scale = 311 / 320\<rparr> = None \<and>
   compressImageHeuristic example_config example_encoder (stub_image below_full_size) ''image/jpeg''
     = None"
proof -
  define enc where "enc = example_encoder"
  have enc: "new_ImageProcessor example_config = Inr enc"
    unfolding enc_def by (rule example_processor)
  let ?img = "stub_image below_full_size"
  let ?p0 = "\<lparr>format = ''image/jpeg'', quality = 0.95, scale = 1.0\<rparr>"
  let ?wp = "\<lparr>format = ''image/jpeg'', quality = 591 / 640, scale = 311 / 320\<rparr>"
  let ?wp' = "\<lparr>format = ''image/jpeg'', quality = 19 / 20, scale = 311 / 320\<rparr>"
  let ?ws = "\<lparr>format = ''image/jpeg'', quality = 591 / 640, scale = 1\<rparr>"
  let ?ws' = "\<lparr>format = ''image/jpeg'', quality = 19 / 20, scale = 1\<rparr>"
  let ?s1 = "\<lparr>step_quality = 1 / 20, step_scale = 1 / 20\<rparr>"
  have p1: "tryCompressionLevel example_config enc ?img ?p0 = Some (unfit_result ?p0)"
    by (rule phase1_stub[OF enc]) (simp add: below_full_size_def)
  have p2: "binarySearchCompression example_config enc ?img ''image/jpeg'' (enat 5)
      = Some (Some (fit_result ?wp))"
    by (rule phase2_stub_all_fit[OF enc]) (simp add: below_full_size_def)
  have rounds: "\<exists>st. binarySearch_loop example_config enc ?img ''image/jpeg''
       (search_init example_config (enat 5)) = Some st \<and> length (history st) = 5"
    unfolding search_init_5
    by (simp add: search_eval try_stub[OF enc] below_full_size_def)
  have t0: "tryCompressionLevel example_config enc ?img ?wp = Some (fit_result ?wp)"
    by (simp add: try_stub[OF enc] Math_round_def below_full_size_def)
  have tq: "tryCompressionLevel example_config enc ?img ?wp' = Some (fit_result ?wp')"
    by (simp add: try_stub[OF enc] Math_round_def below_full_size_def)
  have ts: "tryCompressionLevel example_config enc ?img ?ws = Some (unfit_result ?ws)"
    by (simp add: try_stub[OF enc] Math_round_def below_full_size_def floor_rat_numeral)
  have ts': "tryCompressionLevel example_config enc ?img ?ws' = Some (unfit_result ?ws')"
    by (simp add: try_stub[OF enc] Math_round_def below_full_size_def floor_rat_numeral)
  have stuck: "improve_loop example_config enc ?img ?s1 (fit_result ?wp', ?wp') = None"
    by (rule improve_loop_stuck[where rq = "fit_result ?wp'" and rs = "unfit_result ?ws'"])
       (simp_all add: tq ts' results_simps result_lengths)
  have first: "improve_loop example_config enc ?img ?s1 (fit_result ?wp, ?wp)
        = improve_loop example_config enc ?img ?s1 (fit_result ?wp', ?wp')"
    by (subst improve_loop.simps) (simp add: tq ts results_simps result_lengths)
  have p3: "optimizeCompression example_config enc ?img ''image/jpeg'' ?wp = None"
    by (simp add: optimizeCompression_def optimizationSteps_def t0 first stuck)
  have "compressImageHeuristic example_config enc ?img ''image/jpeg'' = None"
    by (simp only: compressImageHeuristic_def p1 option.case results_simps if_False if_True p2 p3)
  then show ?thesis using enc p1 rounds p2 p3 unfolding enc_def by (intro conjI)
qed

end
